theory Spec2Isabelle
  imports Complex_Main "HOL-Library.Word"
begin

unbundle bit_operations_syntax

section \<open>Arbitrary-precision values (the MPFR library, as the evaluator uses it)\<close>

text \<open>
  The interpreter keeps every number in an \<^verbatim>\<open>mpfr_t\<close> initialised with
  \<^verbatim>\<open>mpfr_init2(x, PRECISION_ROUNDING_BITS)\<close>, that is with a significand of 256 bits,
  and calls every MPFR function with the rounding mode \<^verbatim>\<open>MPFR_RNDN\<close>.  MPFR is a
  library outside the repository; the functions below follow its reference manual for the
  calls that \<^verbatim>\<open>parser.c\<close> and \<^verbatim>\<open>symbolTable.c\<close> make.

  A value is NaN, an infinity, a zero (both carry a sign bit, \<open>True\<close> for minus) or a
  regular number, a real other than zero.  A regular number is \<open>m * 2^e\<close> with
  \<open>1/2 \<le> \<bar>m\<bar> < 1\<close> and an exponent \<open>e\<close> in the range \<open>emin .. emax\<close>; the program never
  changes the default range of the library, \<open>1 - 2^30 .. 2^30 - 1\<close>
  (\<^verbatim>\<open>MPFR_EMIN_DEFAULT\<close>, \<^verbatim>\<open>MPFR_EMAX_DEFAULT\<close> in \<^verbatim>\<open>mpfr.h\<close>).
\<close>

datatype mpfr = NaN | Infinity bool | Zero bool | Regular real

text \<open>Round to nearest, ties to even, on a significand of 256 bits.\<close>

definition round_half_even :: "real \<Rightarrow> int" where
  "round_half_even r =
     (let f = \<lfloor>r\<rfloor>; d = r - of_int f
      in if d < 1 / 2 then f else if 1 / 2 < d then f + 1 else if even f then f else f + 1)"

definition mpfr_round :: "real \<Rightarrow> real" where
  "mpfr_round x =
     (if x = 0 then 0
      else let e = \<lfloor>log 2 \<bar>x\<bar>\<rfloor> - 255
           in of_int (round_half_even (x / 2 powr of_int e)) * 2 powr of_int e)"

definition MPFR_EMAX_DEFAULT :: int where
  "MPFR_EMAX_DEFAULT = 1073741823"

definition MPFR_EMIN_DEFAULT :: int where
  "MPFR_EMIN_DEFAULT = - 1073741823"

text \<open>
  The value stored for an exact result \<open>r\<close> other than zero, in rounding to nearest: \<open>r\<close> is
  rounded to 256 bits as if the exponent had no bounds.  If the exponent of the rounded
  number is above \<open>emax\<close> (the number is \<open>2^emax\<close> or more in absolute value) the result
  is an infinity, the overflow.  If it is below \<open>emin\<close> (the number is less than
  \<open>2^(emin - 1)\<close>, the least positive number) the result is a zero when \<open>r\<close> is at most half
  of the least positive number, and the least number otherwise, the underflow.
\<close>

definition mpfr_check_range :: "real \<Rightarrow> mpfr" where
  "mpfr_check_range r =
     (if 2 powr of_int MPFR_EMAX_DEFAULT \<le> \<bar>mpfr_round r\<bar> then Infinity (r < 0)
      else if \<bar>mpfr_round r\<bar> < 2 powr of_int (MPFR_EMIN_DEFAULT - 1) then
        (if \<bar>r\<bar> \<le> 2 powr of_int (MPFR_EMIN_DEFAULT - 2) then Zero (r < 0)
         else Regular (sgn r * 2 powr of_int (MPFR_EMIN_DEFAULT - 1)))
      else Regular (mpfr_round r))"

text \<open>The value stored for an exact result \<open>r\<close>; \<open>s\<close> is the sign given to an exact zero.\<close>

definition mk_val :: "bool \<Rightarrow> real \<Rightarrow> mpfr" where
  "mk_val s r = (if r = 0 then Zero s else mpfr_check_range r)"

fun is_nan :: "mpfr \<Rightarrow> bool" where
  "is_nan NaN = True"
| "is_nan _ = False"

fun is_inf :: "mpfr \<Rightarrow> bool" where
  "is_inf (Infinity _) = True"
| "is_inf _ = False"

text \<open>\<^verbatim>\<open>mpfr_zero_p\<close>: true for both zeros.\<close>

fun mpfr_zero_p :: "mpfr \<Rightarrow> bool" where
  "mpfr_zero_p (Zero _) = True"
| "mpfr_zero_p _ = False"

fun sign_bit :: "mpfr \<Rightarrow> bool" where
  "sign_bit NaN = False"
| "sign_bit (Infinity s) = s"
| "sign_bit (Zero s) = s"
| "sign_bit (Regular x) = (x < 0)"

fun val :: "mpfr \<Rightarrow> real" where
  "val (Regular x) = x"
| "val _ = 0"

text \<open>
  \<^verbatim>\<open>mpfr_set(rop, op, MPFR_RNDN)\<close>: the value of \<open>op\<close> rounded to the 256 bits of \<open>rop\<close>.
  (Every \<open>op\<close> of the program has 256 bits already and is in the exponent range.)
\<close>

fun mpfr_set :: "mpfr \<Rightarrow> mpfr" where
  "mpfr_set (Regular x) = Regular (mpfr_round x)"
| "mpfr_set v = v"

fun mpfr_neg :: "mpfr \<Rightarrow> mpfr" where
  "mpfr_neg NaN = NaN"
| "mpfr_neg (Infinity s) = Infinity (\<not> s)"
| "mpfr_neg (Zero s) = Zero (\<not> s)"
| "mpfr_neg (Regular x) = Regular (- x)"

text \<open>
  \<^verbatim>\<open>mpfr_add\<close>: NaN if an operand is NaN or the operands are infinities of opposite
  signs; the sum of two zeros is \<open>-0\<close> only when both are; an exact sum of zero is \<open>+0\<close>.
\<close>

definition mpfr_add :: "mpfr \<Rightarrow> mpfr \<Rightarrow> mpfr" where
  "mpfr_add a b =
     (if is_nan a \<or> is_nan b then NaN
      else if is_inf a \<and> is_inf b then (if sign_bit a = sign_bit b then a else NaN)
      else if is_inf a then a
      else if is_inf b then b
      else if mpfr_zero_p a \<and> mpfr_zero_p b then Zero (sign_bit a \<and> sign_bit b)
      else mk_val False (val a + val b))"

text \<open>\<^verbatim>\<open>mpfr_sub\<close>: the sum with the negated second operand, zeros and infinities included.\<close>

definition mpfr_sub :: "mpfr \<Rightarrow> mpfr \<Rightarrow> mpfr" where
  "mpfr_sub a b = mpfr_add a (mpfr_neg b)"

text \<open>\<^verbatim>\<open>mpfr_mul\<close>: NaN if an operand is NaN or for zero times infinity.\<close>

definition mpfr_mul :: "mpfr \<Rightarrow> mpfr \<Rightarrow> mpfr" where
  "mpfr_mul a b =
     (if is_nan a \<or> is_nan b then NaN
      else if (is_inf a \<and> mpfr_zero_p b) \<or> (mpfr_zero_p a \<and> is_inf b) then NaN
      else if is_inf a \<or> is_inf b then Infinity (sign_bit a \<noteq> sign_bit b)
      else if mpfr_zero_p a \<or> mpfr_zero_p b then Zero (sign_bit a \<noteq> sign_bit b)
      else mpfr_check_range (val a * val b))"

text \<open>
  \<^verbatim>\<open>mpfr_div\<close>: NaN if an operand is NaN, for infinity by infinity and for zero by zero;
  a regular number or an infinity divided by a zero is an infinity.
\<close>

definition mpfr_div :: "mpfr \<Rightarrow> mpfr \<Rightarrow> mpfr" where
  "mpfr_div a b =
     (if is_nan a \<or> is_nan b then NaN
      else if (is_inf a \<and> is_inf b) \<or> (mpfr_zero_p a \<and> mpfr_zero_p b) then NaN
      else if is_inf a \<or> mpfr_zero_p b then Infinity (sign_bit a \<noteq> sign_bit b)
      else if is_inf b \<or> mpfr_zero_p a then Zero (sign_bit a \<noteq> sign_bit b)
      else mpfr_check_range (val a / val b))"

definition is_int :: "real \<Rightarrow> bool" where
  "is_int y = (y = of_int \<lfloor>y\<rfloor>)"

definition odd_int :: "real \<Rightarrow> bool" where
  "odd_int y = (is_int y \<and> odd \<lfloor>y\<rfloor>)"

text \<open>
  \<^verbatim>\<open>mpfr_pow\<close>, with the special cases of the manual (those of ISO C99 and IEEE 754):
  \<open>pow(x, \<plusminus>0)\<close> is 1 for every \<open>x\<close>, even NaN; \<open>pow(+1, y)\<close> is 1 for every \<open>y\<close>, even
  NaN; a zero or an infinity raised to \<open>y\<close> keeps a minus sign only for an odd integer
  \<open>y\<close>; \<open>pow(-1, \<plusminus>Inf)\<close> is 1; a negative regular base has a power only for an integer
  exponent.
\<close>

fun mpfr_pow_cases :: "mpfr \<Rightarrow> mpfr \<Rightarrow> mpfr" where
  "mpfr_pow_cases (Zero s) (Infinity t) = (if t then Infinity False else Zero False)"
| "mpfr_pow_cases (Zero s) (Regular b) =
     (if b < 0 then Infinity (s \<and> odd_int b) else Zero (s \<and> odd_int b))"
| "mpfr_pow_cases (Infinity s) (Infinity t) = (if t then Zero False else Infinity False)"
| "mpfr_pow_cases (Infinity s) (Regular b) =
     (if b < 0 then Zero (s \<and> odd_int b) else Infinity (s \<and> odd_int b))"
| "mpfr_pow_cases (Regular a) (Infinity t) =
     (if a = - 1 then Regular 1
      else if \<bar>a\<bar> < 1 then (if t then Infinity False else Zero False)
      else (if t then Zero False else Infinity False))"
| "mpfr_pow_cases (Regular a) (Regular b) =
     (if 0 < a then mpfr_check_range (a powr b)
      else if is_int b then mpfr_check_range (a powi \<lfloor>b\<rfloor>)
      else NaN)"
| "mpfr_pow_cases _ _ = NaN"

definition mpfr_pow :: "mpfr \<Rightarrow> mpfr \<Rightarrow> mpfr" where
  "mpfr_pow a b =
     (if mpfr_zero_p b then Regular 1
      else if a = Regular 1 then Regular 1
      else if is_nan a \<or> is_nan b then NaN
      else mpfr_pow_cases a b)"

text \<open>\<^verbatim>\<open>mpfr_sqrt\<close>: NaN for a negative operand, \<open>-0\<close> for \<open>-0\<close>.\<close>

fun mpfr_sqrt :: "mpfr \<Rightarrow> mpfr" where
  "mpfr_sqrt NaN = NaN"
| "mpfr_sqrt (Infinity s) = (if s then NaN else Infinity False)"
| "mpfr_sqrt (Zero s) = Zero s"
| "mpfr_sqrt (Regular x) = (if x < 0 then NaN else mpfr_check_range (sqrt x))"

text \<open>
  \<^verbatim>\<open>mpfr_cmp_d(op, d)\<close>: positive, zero or negative as \<open>op\<close> is greater than, equal to
  or less than \<open>d\<close>; zero when \<open>op\<close> is NaN.
\<close>

fun mpfr_cmp_d :: "mpfr \<Rightarrow> real \<Rightarrow> int" where
  "mpfr_cmp_d NaN d = 0"
| "mpfr_cmp_d (Infinity s) d = (if s then - 1 else 1)"
| "mpfr_cmp_d (Zero s) d = (if 0 < d then - 1 else if d < 0 then 1 else 0)"
| "mpfr_cmp_d (Regular x) d = (if x < d then - 1 else if d < x then 1 else 0)"

text \<open>
  \<^verbatim>\<open>mpfr_sprintf(buf, "%.15Rf", op)\<close> into a buffer of 100 bytes, as \<^verbatim>\<open>symbol_table_insert\<close>
  calls it: the text is \<open>nan\<close>, \<open>inf\<close> or \<open>-inf\<close>, or the sign, the digits of the integral
  part, the point and 15 digits of the number rounded to nearest, and the terminator
  follows it.  The function does not know the size of the buffer: the predicate is true
  when it writes past its end, which is with 84 digits of the integral part, or with 83
  and a sign.
\<close>

definition sprintf_overruns :: "mpfr \<Rightarrow> bool" where
  "sprintf_overruns op =
     (case op of
        Regular x \<Rightarrow> 10 ^ (if x < 0 then 97 else 98) \<le> round_half_even (\<bar>x\<bar> * 10 ^ 15)
      | _ \<Rightarrow> False)"

text \<open>
  \<^verbatim>\<open>mpfr_modf(iop, fop, op, rnd)\<close> sets \<open>iop\<close> to the integral part of \<open>op\<close> (as
  \<^verbatim>\<open>mpfr_trunc\<close>) and \<open>fop\<close> to its fractional part (as \<^verbatim>\<open>mpfr_frac\<close>); the pair
  returned is \<open>(iop, fop)\<close>.
\<close>

definition trunc_real :: "real \<Rightarrow> int" where
  "trunc_real x = (if x < 0 then \<lceil>x\<rceil> else \<lfloor>x\<rfloor>)"

fun mpfr_trunc :: "mpfr \<Rightarrow> mpfr" where
  "mpfr_trunc (Regular x) = mk_val (x < 0) (of_int (trunc_real x))"
| "mpfr_trunc v = v"

fun mpfr_frac :: "mpfr \<Rightarrow> mpfr" where
  "mpfr_frac NaN = NaN"
| "mpfr_frac (Infinity s) = Zero s"
| "mpfr_frac (Zero s) = Zero s"
| "mpfr_frac (Regular x) = mk_val (x < 0) (x - of_int (trunc_real x))"

definition mpfr_modf :: "mpfr \<Rightarrow> mpfr \<times> mpfr" where
  "mpfr_modf op = (mpfr_trunc op, mpfr_frac op)"

text \<open>
  \<^verbatim>\<open>mpfr_set_str(rop, s, 10, MPFR_RNDN)\<close> on the strings that reach it, the adjusted
  lexemes of Number tokens: an optional sign, digits with at most one decimal point (the
  period: the program never leaves the C locale), at least one digit, and nothing after
  them.  The result is \<open>None\<close> when MPFR returns \<open>-1\<close> (not a number) and the value
  stored when it returns \<open>0\<close>.  Exponents, leading white space and the words for
  infinity and NaN, which MPFR reads as well, need characters that no Number lexeme holds.
\<close>

definition is_digit :: "char \<Rightarrow> bool" where
  "is_digit c = (48 \<le> (of_char c :: nat) \<and> (of_char c :: nat) \<le> 57)"

definition digit_value :: "char \<Rightarrow> nat" where
  "digit_value c = of_char c - 48"

definition decimal_value :: "string \<Rightarrow> nat" where
  "decimal_value ds = foldl (\<lambda>a c. 10 * a + digit_value c) 0 ds"

definition mpfr_set_str :: "string \<Rightarrow> mpfr option" where
  "mpfr_set_str s =
     (let neg = (s \<noteq> [] \<and> hd s = CHR ''-'');
          body = (if s \<noteq> [] \<and> (hd s = CHR ''-'' \<or> hd s = CHR ''+'') then tl s else s);
          ip = takeWhile is_digit body;
          r1 = dropWhile is_digit body;
          fp = (if r1 \<noteq> [] \<and> hd r1 = CHR ''.'' then takeWhile is_digit (tl r1) else []);
          r2 = (if r1 \<noteq> [] \<and> hd r1 = CHR ''.'' then dropWhile is_digit (tl r1) else r1)
      in if (ip = [] \<and> fp = []) \<or> r2 \<noteq> [] then None
         else Some (mk_val neg ((if neg then - 1 else 1) *
                      real (decimal_value (ip @ fp)) / 10 ^ length fp)))"

section \<open>Tokens and the tokenizer (\<^verbatim>\<open>parser.h\<close>, \<^verbatim>\<open>parser.c\<close>)\<close>

datatype TokenType =
    TOK_NUM | TOK_VAR
  | TOK_ASSING | TOK_ADD | TOK_SUB | TOK_DIVIDE | TOK_MODULE | TOK_MULT | TOK_POWER | TOK_SQUARE
  | TOK_LPAR | TOK_RPAR | TOK_COMM | TOK_LCOR | TOK_RCOR
  | TOK_INVALID

text \<open>
  \<^verbatim>\<open>lexeme\<close> is a pointer into the input line (or to a string literal): the model keeps
  the C string it points to, which for a Number or Variable token is the rest of the line
  from the first character of the token on, not only the token's own \<open>len\<close> characters.
\<close>

record Token =
  lexeme :: string
  type :: TokenType
  len :: nat
  negative :: bool

definition TOKEN_BUFFER_SIZE :: nat where
  "TOKEN_BUFFER_SIZE = 128"

definition TOKEN_LEXEME_LEN_LIMIT :: nat where
  "TOKEN_LEXEME_LEN_LIMIT = 255"

text \<open>
  The token buffer: \<open>token_buff\<close> holds the \<open>count\<close> tokens in use (so \<open>count\<close> is its
  length) and \<open>buff_size\<close> is the field \<^verbatim>\<open>size\<close>, the number of tokens allocated.  Both
  are \<^verbatim>\<open>uint16_t\<close> in the source; a line has fewer than \<^verbatim>\<open>INPUT_BUFFER\<close> = 512
  characters, hence fewer tokens, so they do not wrap.  Allocation is taken to succeed.
\<close>

record TokenBuffer =
  token_buff :: "Token list"
  buff_size :: nat

definition token_buffer_create :: TokenBuffer where
  "token_buffer_create = \<lparr>token_buff = [], buff_size = TOKEN_BUFFER_SIZE\<rparr>"

definition token_buffer_add :: "TokenBuffer \<Rightarrow> TokenType \<Rightarrow> string \<Rightarrow> nat \<Rightarrow> TokenBuffer" where
  "token_buffer_add buff ty start l =
     \<lparr>token_buff = token_buff buff @ [\<lparr>lexeme = start, type = ty, len = l, negative = False\<rparr>],
      buff_size = (if length (token_buff buff) \<ge> buff_size buff
                   then buff_size buff + TOKEN_BUFFER_SIZE else buff_size buff)\<rparr>"

text \<open>
  \<^verbatim>\<open>token_adjust_lexeme\<close>: for a Number or Variable token, \<^verbatim>\<open>snprintf\<close> writes the
  sign and the first \<open>len\<close> characters of the lexeme, \<open>len + negative\<close> characters and the
  terminator, into the global \<^verbatim>\<open>bufferNames\<close> of \<^verbatim>\<open>TOKEN_LEXEME_LEN_LIMIT\<close> bytes.
  The result is \<open>None\<close> when that write runs past the end of the buffer.
\<close>

definition token_adjust_lexeme :: "Token \<Rightarrow> string option" where
  "token_adjust_lexeme tok =
     (if type tok \<noteq> TOK_NUM \<and> type tok \<noteq> TOK_VAR then Some (lexeme tok)
      else if len tok + 1 + (if negative tok then 1 else 0) > TOKEN_LEXEME_LEN_LIMIT then None
      else Some (take (len tok + (if negative tok then 1 else 0))
                   ((if negative tok then ''-'' else []) @ lexeme tok)))"

text \<open>\<^verbatim>\<open>isspace\<close> and \<^verbatim>\<open>isdigit\<close> in the C locale; \<open>lookupTable\<close> is true for letters and \<open>_\<close>.\<close>

definition is_space :: "char \<Rightarrow> bool" where
  "is_space c = ((of_char c :: nat) \<in> {32, 9, 10, 11, 12, 13})"

definition lookupTable :: "char \<Rightarrow> bool" where
  "lookupTable c =
     (let n = (of_char c :: nat)
      in (97 \<le> n \<and> n \<le> 122) \<or> (65 \<le> n \<and> n \<le> 90) \<or> n = 95)"

text \<open>
  The inner loop of a digit run, after its first digit: the number of characters it
  passes, digits and at most one separator, \<open>.\<close> or \<open>,\<close>.
\<close>

fun scan_number :: "bool \<Rightarrow> string \<Rightarrow> nat" where
  "scan_number isFloat [] = 0"
| "scan_number isFloat (c # cs) =
     (if is_digit c then Suc (scan_number isFloat cs)
      else if \<not> isFloat \<and> (c = CHR ''.'' \<or> c = CHR '','') then Suc (scan_number True cs)
      else 0)"

text \<open>The \<^verbatim>\<open>switch\<close> on a single character, \<open>-\<close> apart.\<close>

definition op_token :: "char \<Rightarrow> TokenType option" where
  "op_token c =
     (if c = CHR ''='' then Some TOK_ASSING
      else if c = CHR ''+'' then Some TOK_ADD
      else if c = CHR ''/'' then Some TOK_DIVIDE
      else if c = CHR ''*'' then Some TOK_MULT
      else if c = CHR ''('' then Some TOK_LPAR
      else if c = CHR '')'' then Some TOK_RPAR
      else if c = CHR ''['' then Some TOK_LCOR
      else if c = CHR '']'' then Some TOK_RCOR
      else if c = CHR ''%'' then Some TOK_MODULE
      else if c = CHR ''^'' then Some TOK_POWER
      else if c = CHR '','' then Some TOK_COMM
      else None)"

text \<open>
  The test that makes a \<open>-\<close> a sign: no token yet, or the last one is not a number, a
  closing parenthesis or a variable.
\<close>

definition unary_position :: "TokenBuffer \<Rightarrow> bool" where
  "unary_position buff =
     (token_buff buff = [] \<or>
      (type (last (token_buff buff)) \<noteq> TOK_NUM \<and>
       type (last (token_buff buff)) \<noteq> TOK_RPAR \<and>
       type (last (token_buff buff)) \<noteq> TOK_VAR))"

text \<open>\<^verbatim>\<open>tokBuff->token_buff[tokBuff->count-1].negative = true\<close>.\<close>

definition negate_last :: "TokenBuffer \<Rightarrow> TokenBuffer" where
  "negate_last buff =
     buff\<lparr>token_buff := (token_buff buff)
        [length (token_buff buff) - 1 :=
           (token_buff buff ! (length (token_buff buff) - 1))\<lparr>negative := True\<rparr>]\<rparr>"

text \<open>
  The main loop of \<^verbatim>\<open>tokenize\<close> on the rest of the line.  The result is the value
  returned together with the buffer, which on failure holds the tokens read so far.  In
  the sign branch the length given to \<^verbatim>\<open>token_buffer_add\<close> is converted to
  \<^verbatim>\<open>uint8_t\<close> without a check, hence the \<open>mod 256\<close>.
\<close>

lemma length_dropWhile_dropWhile_less:
  "length (dropWhile P (dropWhile Q cs)) < Suc (length cs)"
  by (meson le_imp_less_Suc le_trans length_dropWhile_le)

function tokenize_loop :: "TokenBuffer \<Rightarrow> string \<Rightarrow> bool \<times> TokenBuffer" where
  "tokenize_loop buff [] = (True, buff)"
| "tokenize_loop buff (c # cs) =
     (if is_space c then tokenize_loop buff cs
      else if is_digit c then
        (if Suc (scan_number False cs) > TOKEN_LEXEME_LEN_LIMIT then (False, buff)
         else tokenize_loop (token_buffer_add buff TOK_NUM (c # cs) (Suc (scan_number False cs)))
                (drop (scan_number False cs) cs))
      else if lookupTable c then
        (if Suc (length (takeWhile lookupTable cs)) > TOKEN_LEXEME_LEN_LIMIT then (False, buff)
         else if Suc (length (takeWhile lookupTable cs)) = 4 \<and> take 4 (c # cs) = ''sqrt''
         then tokenize_loop (token_buffer_add buff TOK_SQUARE ''sqrt'' 4) (dropWhile lookupTable cs)
         else tokenize_loop
                (token_buffer_add buff TOK_VAR (c # cs) (Suc (length (takeWhile lookupTable cs))))
                (dropWhile lookupTable cs))
      else if c = CHR ''-'' then
        (if unary_position buff then
           tokenize_loop
             (negate_last (token_buffer_add buff TOK_NUM (dropWhile (\<lambda>x. x = CHR '' '') cs)
                (length (takeWhile is_digit (dropWhile (\<lambda>x. x = CHR '' '') cs)) mod 256)))
             (dropWhile is_digit (dropWhile (\<lambda>x. x = CHR '' '') cs))
         else tokenize_loop (token_buffer_add buff TOK_SUB ''-'' 1) cs)
      else (case op_token c of
              Some ty \<Rightarrow> tokenize_loop (token_buffer_add buff ty [c] 1) cs
            | None \<Rightarrow> (False, buff)))"
  by pat_completeness auto
termination
  by (relation "measure (\<lambda>(buff, s). length s)")
     (auto simp: le_imp_less_Suc length_dropWhile_le length_dropWhile_dropWhile_less)

definition tokenize :: "TokenBuffer \<Rightarrow> string \<Rightarrow> bool \<times> TokenBuffer" where
  "tokenize tokBuff buff = tokenize_loop (tokBuff\<lparr>token_buff := []\<rparr>) buff"

section \<open>The symbol table (\<^verbatim>\<open>symbolTable.h\<close>, \<^verbatim>\<open>symbolTable.c\<close>)\<close>

definition SYMBOL_MAP_BASE_SIZE :: nat where
  "SYMBOL_MAP_BASE_SIZE = 64"

text \<open>
  \<^verbatim>\<open>hash_string\<close>: FNV-1a on a 32-bit accumulator.  \<^verbatim>\<open>str[i]\<close> is a \<^verbatim>\<open>char\<close>,
  converted to \<^verbatim>\<open>uint32_t\<close> through \<^verbatim>\<open>int\<close> (sign-extended where \<^verbatim>\<open>char\<close> is
  signed; the names the interpreter stores are ASCII, where this makes no difference).
  Every caller passes the length of \<open>str\<close> as \<open>len\<close>.
\<close>

definition hash_step :: "32 word \<Rightarrow> char \<Rightarrow> 32 word" where
  "hash_step h c = (h XOR scast (of_char c :: 8 word)) * 16777619"

definition hash_string :: "string \<Rightarrow> nat \<Rightarrow> 32 word" where
  "hash_string str l = foldl hash_step 2166136261 (take l str)"

text \<open>
  A \<^verbatim>\<open>Symbol\<close> without its \<^verbatim>\<open>next\<close> pointer: a bucket's chain is the list of its
  symbols from the head on.  (\<open>sym_len\<close> is the field \<^verbatim>\<open>len\<close>.)
\<close>

record Symbol =
  num :: mpfr
  name :: string
  sym_len :: nat

text \<open>
  A bucket is the head pointer of a chain of live symbols (\<open>Chain []\<close> is \<^verbatim>\<open>NULL\<close>), or
  a pointer to a symbol that has been freed.
\<close>

datatype bucket = Chain "Symbol list" | Dangling

text \<open>\<open>capacity\<close> and \<open>count\<close> are \<^verbatim>\<open>uint16_t\<close>: what is stored in them is taken modulo 65536.\<close>

record SymbolTable =
  buckets :: "bucket list"
  capacity :: nat
  count :: nat

definition symbol_table_create :: SymbolTable where
  "symbol_table_create =
     \<lparr>buckets = replicate SYMBOL_MAP_BASE_SIZE (Chain []),
      capacity = SYMBOL_MAP_BASE_SIZE, count = 0\<rparr>"

text \<open>
  The operations return \<open>None\<close> where the C program has no defined behaviour: a read
  through a dangling bucket pointer or past the bucket array, a remainder by a capacity
  of zero.  Allocation is taken to succeed.
\<close>

definition bucket_index :: "string \<Rightarrow> nat \<Rightarrow> nat \<Rightarrow> nat" where
  "bucket_index nm l cap = unat (hash_string nm l) mod cap"

text \<open>The inner \<^verbatim>\<open>while\<close> of \<^verbatim>\<open>symbol_table_resize\<close>: each symbol of a chain, head first, is put at the head of its new bucket.\<close>

fun rehash_chain :: "nat \<Rightarrow> Symbol list \<Rightarrow> Symbol list list \<Rightarrow> Symbol list list" where
  "rehash_chain new_capacity [] new_buckets = new_buckets"
| "rehash_chain new_capacity (s # ss) new_buckets =
     rehash_chain new_capacity ss
       (new_buckets[bucket_index (name s) (sym_len s) new_capacity :=
          s # new_buckets ! bucket_index (name s) (sym_len s) new_capacity])"

fun rehash_buckets :: "nat \<Rightarrow> bucket list \<Rightarrow> Symbol list list \<Rightarrow> Symbol list list option" where
  "rehash_buckets new_capacity [] new_buckets = Some new_buckets"
| "rehash_buckets new_capacity (Dangling # bs) new_buckets = None"
| "rehash_buckets new_capacity (Chain ch # bs) new_buckets =
     rehash_buckets new_capacity bs (rehash_chain new_capacity ch new_buckets)"

definition symbol_table_resize :: "SymbolTable \<Rightarrow> nat \<Rightarrow> SymbolTable option" where
  "symbol_table_resize table new_capacity =
     (if length (buckets table) < capacity table then None
      else case rehash_buckets new_capacity (take (capacity table) (buckets table))
                  (replicate new_capacity []) of
             None \<Rightarrow> None
           | Some new_buckets \<Rightarrow>
               Some (table\<lparr>buckets := map Chain new_buckets,
                          capacity := new_capacity mod 65536\<rparr>))"

text \<open>The search of a chain for \<^verbatim>\<open>current->len == nameLen && strcmp(current->name, name) == 0\<close>.\<close>

definition sym_match :: "string \<Rightarrow> nat \<Rightarrow> Symbol \<Rightarrow> bool" where
  "sym_match nm l s = (sym_len s = l \<and> name s = nm)"

text \<open>
  The first matching symbol of the chain gets the new value: the result is the value it
  had and the chain with the new one; \<open>None\<close> if there is none.
\<close>

fun chain_update ::
  "string \<Rightarrow> nat \<Rightarrow> mpfr \<Rightarrow> Symbol list \<Rightarrow> (mpfr \<times> Symbol list) option" where
  "chain_update nm l v [] = None"
| "chain_update nm l v (s # ss) =
     (if sym_match nm l s then Some (num s, s\<lparr>num := mpfr_set v\<rparr> # ss)
      else map_option (\<lambda>(old, ch). (old, s # ch)) (chain_update nm l v ss))"

text \<open>
  \<^verbatim>\<open>symbol_table_insert\<close>.  The test \<^verbatim>\<open>table->count > table->capacity * THRESHOLD_MAP\<close>
  compares in \<^verbatim>\<open>double\<close> with \<open>THRESHOLD_MAP = 0.6\<close>; for 16-bit operands it holds
  exactly when \<open>5 * count > 3 * capacity\<close>.  It is made before the name is looked up,
  on the count before this insertion.  The new capacity is \<^verbatim>\<open>table->capacity << 1\<close>.
  When the name is found, the old and the new value are first written as text into two
  arrays of 100 bytes (in every build, not only for debugging); the result is \<open>None\<close> when
  one of them does not fit.  \<open>nameLen\<close> is a \<^verbatim>\<open>uint8_t\<close>; every caller passes a length
  below 256.
\<close>

definition symbol_table_insert :: "SymbolTable \<Rightarrow> string \<Rightarrow> mpfr \<Rightarrow> nat \<Rightarrow> SymbolTable option" where
  "symbol_table_insert table nm v nameLen =
     (case (if 5 * count table > 3 * capacity table
            then symbol_table_resize table (2 * capacity table) else Some table) of
        None \<Rightarrow> None
      | Some t \<Rightarrow>
          if capacity t = 0 \<or> length (buckets t) \<le> bucket_index nm nameLen (capacity t) then None
          else (case buckets t ! bucket_index nm nameLen (capacity t) of
                  Dangling \<Rightarrow> None
                | Chain ch \<Rightarrow>
                    (case chain_update nm nameLen v ch of
                       Some (old_value, ch') \<Rightarrow>
                         if sprintf_overruns old_value \<or> sprintf_overruns v then None
                         else Some (t\<lparr>buckets := (buckets t)
                                        [bucket_index nm nameLen (capacity t) := Chain ch']\<rparr>)
                     | None \<Rightarrow>
                         Some (t\<lparr>buckets := (buckets t)
                                   [bucket_index nm nameLen (capacity t) :=
                                      Chain (\<lparr>num = mpfr_set v, name = nm, sym_len = nameLen\<rparr> # ch)],
                                 count := (count t + 1) mod 65536\<rparr>))))"

text \<open>\<^verbatim>\<open>symbol_table_get\<close>: a pointer to the value found, or \<^verbatim>\<open>NULL\<close>.\<close>

datatype lookup = Found mpfr | Absent | InvalidRead

definition symbol_table_get :: "SymbolTable \<Rightarrow> string \<Rightarrow> nat \<Rightarrow> lookup" where
  "symbol_table_get table nm nameLen =
     (if capacity table = 0 \<or> length (buckets table) \<le> bucket_index nm nameLen (capacity table)
      then InvalidRead
      else case buckets table ! bucket_index nm nameLen (capacity table) of
             Dangling \<Rightarrow> InvalidRead
           | Chain ch \<Rightarrow>
               (case find (sym_match nm nameLen) ch of
                  Some s \<Rightarrow> Found (num s)
                | None \<Rightarrow> Absent))"

text \<open>
  \<^verbatim>\<open>symbol_table_empty\<close> frees every symbol of every chain and writes nothing to the
  table: a bucket that had symbols keeps its pointer, now dangling, and \<open>count\<close> and
  \<open>capacity\<close> are as before.  Run on a bucket that dangles already it reads freed memory.
\<close>

fun free_bucket :: "bucket \<Rightarrow> bucket option" where
  "free_bucket (Chain []) = Some (Chain [])"
| "free_bucket (Chain (s # ss)) = Some Dangling"
| "free_bucket Dangling = None"

fun free_buckets :: "bucket list \<Rightarrow> bucket list option" where
  "free_buckets [] = Some []"
| "free_buckets (b # bs) =
     (case free_bucket b of
        None \<Rightarrow> None
      | Some b' \<Rightarrow> map_option ((#) b') (free_buckets bs))"

definition symbol_table_empty :: "SymbolTable \<Rightarrow> SymbolTable option" where
  "symbol_table_empty symTable =
     (if length (buckets symTable) < capacity symTable then None
      else case free_buckets (take (capacity symTable) (buckets symTable)) of
             None \<Rightarrow> None
           | Some bs \<Rightarrow>
               Some (symTable\<lparr>buckets := bs @ drop (capacity symTable) (buckets symTable)\<rparr>))"

section \<open>The parser (\<^verbatim>\<open>parser.c\<close>)\<close>

text \<open>
  An AST node lives in the node buffer of the parser and points to its token and to its
  children; the model keeps the tree itself, with a copy of the token.  A child is
  \<open>None\<close> for a \<^verbatim>\<open>NULL\<close> pointer.
\<close>

datatype ASTNode = ASTNode (token: Token) (left: "ASTNode option") (right: "ASTNode option")

text \<open>
  The state of a \<^verbatim>\<open>Parser\<close>: \<open>nodes_size\<close> is its field \<^verbatim>\<open>size\<close>, the number of nodes
  allocated, and \<open>mpfr_size\<close>, \<open>mpfr_count\<close> are the fields of its \<^verbatim>\<open>MpfrBuffer\<close>, the pool
  of result slots.  The token buffer is the one the tokenizer fills.
\<close>

record Parser =
  tokens :: TokenBuffer
  symTable :: SymbolTable
  mpfr_size :: nat
  mpfr_count :: nat
  curr_tok :: nat
  curr_node :: nat
  nodes_size :: nat

text \<open>
  A parsing function of the source returns \<^verbatim>\<open>NULL\<close> after printing why.  The model returns
  the first message printed: \<open>UnexpectedEOF\<close> and \<open>UnexpectedToken\<close> come from
  \<^verbatim>\<open>parse_primary\<close>, \<open>ExpectedToken\<close> from \<^verbatim>\<open>expect\<close> (its callers add "Missing closing
  parenthesis" or "Expected '(' after sqrt"), \<open>NodeBufferOverflow\<close> from the two node
  constructors.  The last two stand for what C leaves undefined or what no call reaches.
\<close>

datatype ParseError =
    UnexpectedEOF
  | UnexpectedToken TokenType
  | ExpectedToken TokenType "TokenType option"
  | NodeBufferOverflow
  | NodeWriteOutOfBounds
  | ConsumeAtEnd

definition peek :: "Parser \<Rightarrow> Token option" where
  "peek parser =
     (if curr_tok parser \<ge> length (token_buff (tokens parser)) then None
      else Some (token_buff (tokens parser) ! curr_tok parser))"

definition peek_next :: "Parser \<Rightarrow> Token option" where
  "peek_next parser =
     (if curr_tok parser + 1 \<ge> length (token_buff (tokens parser)) then None
      else Some (token_buff (tokens parser) ! (curr_tok parser + 1)))"

text \<open>
  \<^verbatim>\<open>consume\<close> also stores the token in \<^verbatim>\<open>nodesBuffer[curr_node]\<close>, the next free node: a
  write past the buffer when \<open>curr_node\<close> has reached \<open>nodes_size\<close>, and otherwise without
  effect on the tree, since a node constructor sets all three fields of the node it
  hands out.  Every call of \<^verbatim>\<open>consume\<close> in the grammar follows a \<^verbatim>\<open>peek\<close>,
  \<^verbatim>\<open>match\<close> or \<^verbatim>\<open>expect\<close> that has seen a token, so its \<^verbatim>\<open>NULL\<close> for the end of the
  input is never taken; the model has it as \<open>ConsumeAtEnd\<close>.
\<close>

definition consume :: "Parser \<Rightarrow> ParseError + Token \<times> Parser" where
  "consume parser =
     (if curr_tok parser \<ge> length (token_buff (tokens parser)) then Inl ConsumeAtEnd
      else if curr_node parser \<ge> nodes_size parser then Inl NodeWriteOutOfBounds
      else Inr (token_buff (tokens parser) ! curr_tok parser,
                parser\<lparr>curr_tok := curr_tok parser + 1\<rparr>))"

definition match :: "Parser \<Rightarrow> TokenType \<Rightarrow> bool" where
  "match parser ty = (case peek parser of None \<Rightarrow> False | Some t \<Rightarrow> type t = ty)"

definition expect :: "Parser \<Rightarrow> TokenType \<Rightarrow> bool" where
  "expect parser ty = (case peek parser of None \<Rightarrow> False | Some t \<Rightarrow> type t = ty)"

definition create_leaf_node :: "Parser \<Rightarrow> Token \<Rightarrow> ParseError + ASTNode \<times> Parser" where
  "create_leaf_node p tok =
     (if curr_node p \<ge> nodes_size p then Inl NodeBufferOverflow
      else Inr (ASTNode tok None None, p\<lparr>curr_node := curr_node p + 1\<rparr>))"

definition create_binary_node ::
  "Parser \<Rightarrow> Token \<Rightarrow> ASTNode \<Rightarrow> ASTNode \<Rightarrow> ParseError + ASTNode \<times> Parser" where
  "create_binary_node p op l r =
     (if curr_node p \<ge> nodes_size p then Inl NodeBufferOverflow
      else Inr (ASTNode op (Some l) (Some r), p\<lparr>curr_node := curr_node p + 1\<rparr>))"

text \<open>
  The grammar.  The \<^verbatim>\<open>while\<close> loops of \<^verbatim>\<open>parse_term\<close> and \<^verbatim>\<open>parse_expression\<close> are
  the functions \<open>parse_term_loop\<close> and \<open>parse_expression_loop\<close>, whose second argument is
  the variable \<^verbatim>\<open>left\<close>.  (In the loops the source goes on after a node constructor has
  returned \<^verbatim>\<open>NULL\<close>; every later constructor call then fails as well, so the function
  returns \<^verbatim>\<open>NULL\<close> with the overflow as the first message, as the model does at once.)
\<close>

function parse_primary :: "Parser \<Rightarrow> ParseError + ASTNode \<times> Parser"
  and parse_power :: "Parser \<Rightarrow> ParseError + ASTNode \<times> Parser"
  and parse_term_loop :: "Parser \<Rightarrow> ASTNode \<Rightarrow> ParseError + ASTNode \<times> Parser"
  and parse_term :: "Parser \<Rightarrow> ParseError + ASTNode \<times> Parser"
  and parse_expression_loop :: "Parser \<Rightarrow> ASTNode \<Rightarrow> ParseError + ASTNode \<times> Parser"
  and parse_expression :: "Parser \<Rightarrow> ParseError + ASTNode \<times> Parser"
where
  "parse_primary p =
     (case peek p of
        None \<Rightarrow> Inl UnexpectedEOF
      | Some t \<Rightarrow>
          if type t = TOK_NUM \<or> type t = TOK_VAR then
            (case consume p of
               Inl e \<Rightarrow> Inl e
             | Inr (tok, p1) \<Rightarrow> create_leaf_node p1 tok)
          else if type t = TOK_LPAR then
            (case consume p of
               Inl e \<Rightarrow> Inl e
             | Inr (tok, p1) \<Rightarrow>
                 (case parse_expression p1 of
                    Inl e \<Rightarrow> Inl e
                  | Inr (expr, p2) \<Rightarrow>
                      if \<not> expect p2 TOK_RPAR
                      then Inl (ExpectedToken TOK_RPAR (map_option type (peek p2)))
                      else (case consume p2 of
                              Inl e \<Rightarrow> Inl e
                            | Inr (tok2, p3) \<Rightarrow> Inr (expr, p3))))
          else if type t = TOK_SQUARE then
            (case consume p of
               Inl e \<Rightarrow> Inl e
             | Inr (tok, p1) \<Rightarrow>
                 (case create_leaf_node p1 tok of
                    Inl e \<Rightarrow> Inl e
                  | Inr (sq, p2) \<Rightarrow>
                      if \<not> expect p2 TOK_LPAR
                      then Inl (ExpectedToken TOK_LPAR (map_option type (peek p2)))
                      else (case consume p2 of
                              Inl e \<Rightarrow> Inl e
                            | Inr (tok2, p3) \<Rightarrow>
                                (case parse_expression p3 of
                                   Inl e \<Rightarrow> Inl e
                                 | Inr (arg, p4) \<Rightarrow>
                                     if \<not> expect p4 TOK_RPAR
                                     then Inl (ExpectedToken TOK_RPAR (map_option type (peek p4)))
                                     else (case consume p4 of
                                             Inl e \<Rightarrow> Inl e
                                           | Inr (tok3, p5) \<Rightarrow>
                                               Inr (ASTNode (token sq) (Some arg) None, p5))))))
          else Inl (UnexpectedToken (type t)))"
| "parse_power p =
     (case parse_primary p of
        Inl e \<Rightarrow> Inl e
      | Inr (l, p1) \<Rightarrow>
          if match p1 TOK_POWER then
            (case consume p1 of
               Inl e \<Rightarrow> Inl e
             | Inr (op, p2) \<Rightarrow>
                 (case parse_power p2 of
                    Inl e \<Rightarrow> Inl e
                  | Inr (r, p3) \<Rightarrow> create_binary_node p3 op l r))
          else Inr (l, p1))"
| "parse_term_loop p l =
     (if match p TOK_MULT \<or> match p TOK_DIVIDE \<or> match p TOK_MODULE then
        (case consume p of
           Inl e \<Rightarrow> Inl e
         | Inr (op, p1) \<Rightarrow>
             (case parse_power p1 of
                Inl e \<Rightarrow> Inl e
              | Inr (r, p2) \<Rightarrow>
                  (case create_binary_node p2 op l r of
                     Inl e \<Rightarrow> Inl e
                   | Inr (n, p3) \<Rightarrow> parse_term_loop p3 n)))
      else Inr (l, p))"
| "parse_term p =
     (case parse_power p of
        Inl e \<Rightarrow> Inl e
      | Inr (l, p1) \<Rightarrow> parse_term_loop p1 l)"
| "parse_expression_loop p l =
     (if match p TOK_ADD \<or> match p TOK_SUB then
        (case consume p of
           Inl e \<Rightarrow> Inl e
         | Inr (op, p1) \<Rightarrow>
             (case parse_term p1 of
                Inl e \<Rightarrow> Inl e
              | Inr (r, p2) \<Rightarrow>
                  (case create_binary_node p2 op l r of
                     Inl e \<Rightarrow> Inl e
                   | Inr (n, p3) \<Rightarrow> parse_expression_loop p3 n)))
      else Inr (l, p))"
| "parse_expression p =
     (case parse_term p of
        Inl e \<Rightarrow> Inl e
      | Inr (l, p1) \<Rightarrow> parse_expression_loop p1 l)"
  by pat_completeness auto

text \<open>What the basic steps do when they succeed.\<close>

lemma consume_Inr_iff:
  "consume p = Inr (t, p1) \<longleftrightarrow>
     curr_tok p < length (token_buff (tokens p)) \<and> curr_node p < nodes_size p \<and>
     t = token_buff (tokens p) ! curr_tok p \<and> p1 = p\<lparr>curr_tok := Suc (curr_tok p)\<rparr>"
  by (auto simp: consume_def)

lemma create_leaf_node_Inr_iff:
  "create_leaf_node p t = Inr (n, p1) \<longleftrightarrow>
     curr_node p < nodes_size p \<and> n = ASTNode t None None \<and> p1 = p\<lparr>curr_node := Suc (curr_node p)\<rparr>"
  by (auto simp: create_leaf_node_def)

lemma create_binary_node_Inr_iff:
  "create_binary_node p t l r = Inr (n, p1) \<longleftrightarrow>
     curr_node p < nodes_size p \<and> n = ASTNode t (Some l) (Some r) \<and>
     p1 = p\<lparr>curr_node := Suc (curr_node p)\<rparr>"
  by (auto simp: create_binary_node_def)

lemmas parse_step_iffs = consume_Inr_iff create_leaf_node_Inr_iff create_binary_node_Inr_iff

lemma parse_mono_partial:
  "parse_primary_parse_power_parse_term_loop_parse_term_parse_expression_loop_parse_expression_dom (Inl (Inl p)) \<Longrightarrow>
     parse_primary p = Inr (n, p') \<Longrightarrow> tokens p' = tokens p \<and> curr_tok p \<le> curr_tok p'"
  "parse_primary_parse_power_parse_term_loop_parse_term_parse_expression_loop_parse_expression_dom (Inl (Inr (Inl p))) \<Longrightarrow>
     parse_power p = Inr (n, p') \<Longrightarrow> tokens p' = tokens p \<and> curr_tok p \<le> curr_tok p'"
  "parse_primary_parse_power_parse_term_loop_parse_term_parse_expression_loop_parse_expression_dom (Inl (Inr (Inr (p, l)))) \<Longrightarrow>
     parse_term_loop p l = Inr (n, p') \<Longrightarrow> tokens p' = tokens p \<and> curr_tok p \<le> curr_tok p'"
  "parse_primary_parse_power_parse_term_loop_parse_term_parse_expression_loop_parse_expression_dom (Inr (Inl p)) \<Longrightarrow>
     parse_term p = Inr (n, p') \<Longrightarrow> tokens p' = tokens p \<and> curr_tok p \<le> curr_tok p'"
  "parse_primary_parse_power_parse_term_loop_parse_term_parse_expression_loop_parse_expression_dom (Inr (Inr (Inl (p, l)))) \<Longrightarrow>
     parse_expression_loop p l = Inr (n, p') \<Longrightarrow> tokens p' = tokens p \<and> curr_tok p \<le> curr_tok p'"
  "parse_primary_parse_power_parse_term_loop_parse_term_parse_expression_loop_parse_expression_dom (Inr (Inr (Inr p))) \<Longrightarrow>
     parse_expression p = Inr (n, p') \<Longrightarrow> tokens p' = tokens p \<and> curr_tok p \<le> curr_tok p'"
proof (induct arbitrary: n p' and n p' and n p' and n p' and n p' and n p'
    rule: parse_primary_parse_power_parse_term_loop_parse_term_parse_expression_loop_parse_expression.pinduct)
  case (1 p)
  note eq = "1.prems" [unfolded parse_primary.psimps [OF "1.hyps"(1)]]
  from eq obtain t where pk: "peek p = Some t"
    by (auto split: option.splits)
  show ?case
  proof (cases "type t = TOK_NUM \<or> type t = TOK_VAR")
    case True
    with eq pk show ?thesis
      by (auto simp: parse_step_iffs split: sum.splits prod.splits)
  next
    case nv: False
    show ?thesis
    proof (cases "type t = TOK_LPAR")
      case True
      with eq pk nv obtain tok p1 expr p2 tok2 where
        c1: "consume p = Inr (tok, p1)" and e: "parse_expression p1 = Inr (expr, p2)" and
        c2: "consume p2 = Inr (tok2, p')"
        by (auto split: sum.splits prod.splits if_splits)
      from "1.hyps"(2) [OF pk nv True c1 refl e] c1 c2 show ?thesis
        by (auto simp: parse_step_iffs)
    next
      case nl: False
      with eq pk nv have sq: "type t = TOK_SQUARE"
        by (auto split: if_splits)
      with eq pk nv nl obtain tok p1 s p2 tok2 p3 arg p4 tok3 where
        c1: "consume p = Inr (tok, p1)" and cl: "create_leaf_node p1 tok = Inr (s, p2)" and
        ex: "\<not> \<not> expect p2 TOK_LPAR" and
        c2: "consume p2 = Inr (tok2, p3)" and e: "parse_expression p3 = Inr (arg, p4)" and
        c3: "consume p4 = Inr (tok3, p')"
        by (auto split: sum.splits prod.splits if_splits)
      from "1.hyps"(3) [OF pk nv nl sq c1 refl cl refl ex c2 refl e] c1 cl c2 c3 show ?thesis
        by (auto simp: parse_step_iffs)
    qed
  qed
next
  case (2 p)
  note eq = "2.prems" [unfolded parse_power.psimps [OF "2.hyps"(1)]]
  from eq obtain l p1 where pp: "parse_primary p = Inr (l, p1)"
    by (auto split: sum.splits)
  note m1 = "2.hyps"(2) [OF pp]
  show ?case
  proof (cases "match p1 TOK_POWER")
    case False
    with eq pp m1 show ?thesis by simp
  next
    case True
    with eq pp obtain op p2 r p3 where
      c: "consume p1 = Inr (op, p2)" and pw: "parse_power p2 = Inr (r, p3)" and
      cb: "create_binary_node p3 op l r = Inr (n, p')"
      by (auto split: sum.splits prod.splits)
    from "2.hyps"(3) [OF pp refl True c refl pw] m1 c cb show ?thesis
      by (auto simp: parse_step_iffs)
  qed
next
  case (3 p l)
  note eq = "3.prems" [unfolded parse_term_loop.psimps [OF "3.hyps"(1)]]
  show ?case
  proof (cases "match p TOK_MULT \<or> match p TOK_DIVIDE \<or> match p TOK_MODULE")
    case False
    with eq show ?thesis by simp
  next
    case True
    with eq obtain op p1 r p2 nd p3 where
      c: "consume p = Inr (op, p1)" and pw: "parse_power p1 = Inr (r, p2)" and
      cb: "create_binary_node p2 op l r = Inr (nd, p3)" and
      lp: "parse_term_loop p3 nd = Inr (n, p')"
      by (auto split: sum.splits prod.splits)
    from "3.hyps"(2) [OF True c refl pw] "3.hyps"(3) [OF True c refl pw refl cb refl lp] c cb
    show ?thesis
      by (auto simp: parse_step_iffs)
  qed
next
  case (4 p)
  note eq = "4.prems" [unfolded parse_term.psimps [OF "4.hyps"(1)]]
  from eq obtain l p1 where pw: "parse_power p = Inr (l, p1)" and
    lp: "parse_term_loop p1 l = Inr (n, p')"
    by (auto split: sum.splits prod.splits)
  from "4.hyps"(2) [OF pw] "4.hyps"(3) [OF pw refl lp] show ?case
    by auto
next
  case (5 p l)
  note eq = "5.prems" [unfolded parse_expression_loop.psimps [OF "5.hyps"(1)]]
  show ?case
  proof (cases "match p TOK_ADD \<or> match p TOK_SUB")
    case False
    with eq show ?thesis by simp
  next
    case True
    with eq obtain op p1 r p2 nd p3 where
      c: "consume p = Inr (op, p1)" and pw: "parse_term p1 = Inr (r, p2)" and
      cb: "create_binary_node p2 op l r = Inr (nd, p3)" and
      lp: "parse_expression_loop p3 nd = Inr (n, p')"
      by (auto split: sum.splits prod.splits)
    from "5.hyps"(2) [OF True c refl pw] "5.hyps"(3) [OF True c refl pw refl cb refl lp] c cb
    show ?thesis
      by (auto simp: parse_step_iffs)
  qed
next
  case (6 p)
  note eq = "6.prems" [unfolded parse_expression.psimps [OF "6.hyps"(1)]]
  from eq obtain l p1 where pw: "parse_term p = Inr (l, p1)" and
    lp: "parse_expression_loop p1 l = Inr (n, p')"
    by (auto split: sum.splits prod.splits)
  from "6.hyps"(2) [OF pw] "6.hyps"(3) [OF pw refl lp] show ?case
    by auto
qed


definition remaining :: "Parser \<Rightarrow> nat" where
  "remaining p = length (token_buff (tokens p)) - curr_tok p"

termination parse_primary
  apply (relation "measure (\<lambda>x. case x of
           Inl (Inl p) \<Rightarrow> 4 * remaining p
         | Inl (Inr (Inl p)) \<Rightarrow> 4 * remaining p + 1
         | Inl (Inr (Inr (p, l))) \<Rightarrow> 4 * remaining p
         | Inr (Inl p) \<Rightarrow> 4 * remaining p + 2
         | Inr (Inr (Inl (p, l))) \<Rightarrow> 4 * remaining p
         | Inr (Inr (Inr p)) \<Rightarrow> 4 * remaining p + 3)")
  apply (auto simp: parse_step_iffs remaining_def dest!: parse_mono_partial)
  done


declare parse_primary.simps [simp del] parse_power.simps [simp del]
  parse_term_loop.simps [simp del] parse_term.simps [simp del]
  parse_expression_loop.simps [simp del] parse_expression.simps [simp del]

text \<open>
  \<^verbatim>\<open>parse_statement\<close>: an assignment is taken only here, when the first token is a
  variable and the second is \<open>=\<close>.
\<close>

definition parse_statement :: "Parser \<Rightarrow> ParseError + ASTNode \<times> Parser" where
  "parse_statement p =
     (if (case peek p of None \<Rightarrow> False | Some t \<Rightarrow> type t = TOK_VAR) \<and>
         (case peek_next p of None \<Rightarrow> False | Some t \<Rightarrow> type t = TOK_ASSING)
      then (case consume p of
              Inl e \<Rightarrow> Inl e
            | Inr (tok, p1) \<Rightarrow>
                (case create_leaf_node p1 tok of
                   Inl e \<Rightarrow> Inl e
                 | Inr (var, p2) \<Rightarrow>
                     (case consume p2 of
                        Inl e \<Rightarrow> Inl e
                      | Inr (op, p3) \<Rightarrow>
                          (case parse_expression p3 of
                             Inl e \<Rightarrow> Inl e
                           | Inr (r, p4) \<Rightarrow> create_binary_node p4 op var r))))
      else parse_expression p)"

text \<open>
  \<^verbatim>\<open>parse\<close>: both cursors are reset, the node buffer is given the size of the token
  buffer when it has fewer than \<open>count + 1\<close> nodes, and one statement is parsed.  Nothing
  looks at the tokens after it.
\<close>

definition parse :: "Parser \<Rightarrow> ParseError + ASTNode \<times> Parser" where
  "parse parser =
     (let p0 = parser\<lparr>curr_node := 0, curr_tok := 0\<rparr>;
          p1 = (if nodes_size p0 < length (token_buff (tokens p0)) + 1
                then p0\<lparr>nodes_size := buff_size (tokens p0)\<rparr> else p0)
      in parse_statement p1)"

section \<open>The evaluator (\<^verbatim>\<open>parser.c\<close>)\<close>

definition MPRF_BUFFER_SIZE :: nat where
  "MPRF_BUFFER_SIZE = 128"

definition parser_create :: "TokenBuffer \<Rightarrow> Parser" where
  "parser_create toks =
     \<lparr>tokens = toks, symTable = symbol_table_create,
      mpfr_size = MPRF_BUFFER_SIZE, mpfr_count = 0,
      curr_tok = 0, curr_node = 0, nodes_size = buff_size toks\<rparr>"

text \<open>
  What the six cases of \<^verbatim>\<open>evaluate_node\<close> for a binary operator store in \<^verbatim>\<open>*result\<close>
  once both operands are there.  The case \<^verbatim>\<open>TOK_MODULE\<close> calls
  \<^verbatim>\<open>mpfr_modf(*result, *left_val, *right_val, MPFR_RNDN)\<close>: the result is the integral
  part of the right operand, and the slot of the left operand, which nothing reads again,
  receives its fractional part.
\<close>

definition binary_result :: "TokenType \<Rightarrow> mpfr \<Rightarrow> mpfr \<Rightarrow> mpfr" where
  "binary_result ty left_val right_val =
     (if ty = TOK_ADD then mpfr_add left_val right_val
      else if ty = TOK_SUB then mpfr_sub left_val right_val
      else if ty = TOK_DIVIDE then
        (if mpfr_zero_p right_val then NaN else mpfr_div left_val right_val)
      else if ty = TOK_MODULE then
        (if mpfr_zero_p right_val then NaN else fst (mpfr_modf right_val))
      else if ty = TOK_MULT then mpfr_mul left_val right_val
      else mpfr_pow left_val right_val)"

definition is_binary :: "TokenType \<Rightarrow> bool" where
  "is_binary ty =
     (ty = TOK_ADD \<or> ty = TOK_SUB \<or> ty = TOK_DIVIDE \<or> ty = TOK_MODULE \<or> ty = TOK_MULT \<or>
      ty = TOK_POWER)"

text \<open>
  \<^verbatim>\<open>evaluate_node\<close> returns a pointer to the slot of the result, or \<^verbatim>\<open>NULL\<close>; the model
  returns the value in the slot, or \<open>None\<close> for \<^verbatim>\<open>NULL\<close>, with the state of the parser.
  The outer \<open>None\<close> stands for an execution that C leaves undefined:
  \<^item> the pool is full on entry.  The function then moves the pool with \<^verbatim>\<open>realloc\<close>
    while the calls above it hold pointers into the old block and write through them
    afterwards.  (\<^verbatim>\<open>evaluate_expression\<close> resets \<open>mpfr_count\<close>, so this cannot happen
    at the root.)
  \<^item> a child that the case needs is \<^verbatim>\<open>NULL\<close>;
  \<^item> \<^verbatim>\<open>token_adjust_lexeme\<close> overruns its buffer, or the symbol table is read where
    it is not valid.
  The cases for the six binary operators differ only in the MPFR call: both children are
  evaluated, the left one first, and only then is either result tested for \<^verbatim>\<open>NULL\<close>.
\<close>

fun evaluate_node :: "Parser \<Rightarrow> ASTNode \<Rightarrow> (mpfr option \<times> Parser) option" where
  "evaluate_node p (ASTNode tok l r) =
     (if mpfr_count p \<ge> mpfr_size p then None
      else if type tok = TOK_NUM then
        (case token_adjust_lexeme tok of
           None \<Rightarrow> None
         | Some s \<Rightarrow>
             Some (Some (case mpfr_set_str s of None \<Rightarrow> NaN | Some v \<Rightarrow> v),
                   p\<lparr>mpfr_count := mpfr_count p + 1\<rparr>))
      else if type tok = TOK_VAR then
        (case token_adjust_lexeme tok of
           None \<Rightarrow> None
         | Some s \<Rightarrow>
             (case symbol_table_get (symTable p) s (len tok) of
                InvalidRead \<Rightarrow> None
              | Found var_value \<Rightarrow>
                  Some (Some (mpfr_set var_value), p\<lparr>mpfr_count := mpfr_count p + 1\<rparr>)
              | Absent \<Rightarrow> Some (Some NaN, p\<lparr>mpfr_count := mpfr_count p + 1\<rparr>)))
      else if is_binary (type tok) then
        (case l of
           None \<Rightarrow> None
         | Some lnode \<Rightarrow>
             (case evaluate_node (p\<lparr>mpfr_count := mpfr_count p + 1\<rparr>) lnode of
                None \<Rightarrow> None
              | Some (left_val, p1) \<Rightarrow>
                  (case r of
                     None \<Rightarrow> None
                   | Some rnode \<Rightarrow>
                       (case evaluate_node p1 rnode of
                          None \<Rightarrow> None
                        | Some (right_val, p2) \<Rightarrow>
                            (case left_val of
                               None \<Rightarrow> Some (None, p2)
                             | Some a \<Rightarrow>
                                 (case right_val of
                                    None \<Rightarrow> Some (None, p2)
                                  | Some b \<Rightarrow>
                                      Some (Some (binary_result (type tok) a b), p2)))))))
      else if type tok = TOK_SQUARE then
        (case l of
           None \<Rightarrow> None
         | Some lnode \<Rightarrow>
             (case evaluate_node (p\<lparr>mpfr_count := mpfr_count p + 1\<rparr>) lnode of
                None \<Rightarrow> None
              | Some (None, p1) \<Rightarrow> Some (None, p1)
              | Some (Some sq_arg, p1) \<Rightarrow>
                  Some (Some (if mpfr_cmp_d sq_arg 0 < 0 then NaN else mpfr_sqrt sq_arg), p1)))
      else if type tok = TOK_ASSING then
        (case r of
           None \<Rightarrow> None
         | Some rnode \<Rightarrow>
             (case evaluate_node (p\<lparr>mpfr_count := mpfr_count p + 1\<rparr>) rnode of
                None \<Rightarrow> None
              | Some (None, p1) \<Rightarrow> Some (None, p1)
              | Some (Some right_val, p1) \<Rightarrow>
                  (case l of
                     None \<Rightarrow> None
                   | Some lnode \<Rightarrow>
                       (case token_adjust_lexeme (token lnode) of
                          None \<Rightarrow> None
                        | Some s \<Rightarrow>
                            (case symbol_table_insert (symTable p1) s right_val
                                    (len (token lnode)) of
                               None \<Rightarrow> None
                             | Some table \<Rightarrow>
                                 Some (Some (mpfr_set right_val),
                                       p1\<lparr>symTable := table\<rparr>))))))
      else Some (None, p\<lparr>mpfr_count := mpfr_count p + 1\<rparr>))"

text \<open>
  \<^verbatim>\<open>evaluate_expression\<close>: \<open>Some v\<close> when it returns \<^verbatim>\<open>true\<close> with \<open>v\<close> copied to
  \<^verbatim>\<open>*ans\<close>, \<open>None\<close> when it returns \<^verbatim>\<open>false\<close>.
\<close>

definition evaluate_expression :: "Parser \<Rightarrow> ASTNode option \<Rightarrow> (mpfr option \<times> Parser) option" where
  "evaluate_expression parser head =
     (case head of
        None \<Rightarrow> Some (None, parser)
      | Some h \<Rightarrow>
          (case evaluate_node (parser\<lparr>mpfr_count := 0\<rparr>) h of
             None \<Rightarrow> None
           | Some (None, p1) \<Rightarrow> Some (None, p1)
           | Some (Some v, p1) \<Rightarrow> Some (Some (mpfr_set v), p1)))"

section \<open>One line of input (\<^verbatim>\<open>main\<close> in \<^verbatim>\<open>instruction.c\<close>)\<close>

text \<open>
  The six commands that \<^verbatim>\<open>instruction_map_creation\<close> registers, named by the functions
  that run them.  The map is a hash table with chaining and the search compares the
  strings, so a word is found exactly when it is one of the six.
\<close>

datatype command =
  clear_vars_command | help_command | info_command | exit_command | clear_command | show_command

definition instruction_map_lookup :: "string \<Rightarrow> command option" where
  "instruction_map_lookup word =
     map_of [(''-clear-vars'', clear_vars_command), (''-help'', help_command),
             (''-info'', info_command), (''-exit'', exit_command),
             (''-clear'', clear_command), (''-show'', show_command)] word"

text \<open>
  \<^verbatim>\<open>strtok(inst, " ")\<close> on the input buffer: the token is the first word, the characters
  from the first one that is not a blank up to the next blank, and the terminator is
  written over that blank, so that the buffer holds nothing after the word from then on.
  The result is the token (\<open>None\<close> for \<^verbatim>\<open>NULL\<close>, when there is no word) and the buffer as
  the call leaves it.
\<close>

definition strtok_blank :: "string \<Rightarrow> string option \<times> string" where
  "strtok_blank buffer =
     (let word = takeWhile (\<lambda>c. c \<noteq> CHR '' '') (dropWhile (\<lambda>c. c = CHR '' '') buffer)
      in if word = [] then (None, buffer)
         else (Some word, takeWhile (\<lambda>c. c = CHR '' '') buffer @ word))"

text \<open>
  \<^verbatim>\<open>instruction_map_execute\<close>: the command found for the first word of the line, if any,
  and the buffer as \<^verbatim>\<open>strtok\<close> leaves it.
\<close>

definition instruction_map_execute :: "string \<Rightarrow> command option \<times> string" where
  "instruction_map_execute inst =
     (case strtok_blank inst of
        (None, buffer) \<Rightarrow> (None, buffer)
      | (Some word, buffer) \<Rightarrow> (instruction_map_lookup word, buffer))"

text \<open>
  \<^verbatim>\<open>symbol_table_show\<close> walks every chain and prints it: \<open>None\<close> when it reads through a
  dangling pointer or past the bucket array.
\<close>

definition symbol_table_show :: "SymbolTable \<Rightarrow> unit option" where
  "symbol_table_show table =
     (if length (buckets table) < capacity table \<or>
         Dangling \<in> set (take (capacity table) (buckets table))
      then None else Some ())"

text \<open>
  What a command does to the parser.  \<^verbatim>\<open>exit_command\<close> clears the flag \<^verbatim>\<open>run\<close> of the
  loop, the others print.
\<close>

definition run_command :: "command \<Rightarrow> Parser \<Rightarrow> Parser option" where
  "run_command c parser =
     (if c = clear_vars_command
      then map_option (\<lambda>table. parser\<lparr>symTable := table\<rparr>) (symbol_table_empty (symTable parser))
      else if c = show_command
      then map_option (\<lambda>u. parser) (symbol_table_show (symTable parser))
      else Some parser)"

text \<open>
  One turn of the loop of \<^verbatim>\<open>main\<close>, for a line as \<^verbatim>\<open>fgets\<close> delivers it without the end
  of line (at most 510 characters; longer input arrives in pieces).  An empty line is
  skipped.  A line that starts with \<open>-\<close> goes through \<^verbatim>\<open>instruction_map_execute\<close>: a
  command is run, and any other line is left cut at its first blank.  Then the buffer is
  tokenized into the token buffer of the parser, parsed and evaluated, and the result is
  stored under the name \<open>last\<close>.  The value is \<open>None\<close> when the line was empty or a command
  or when one of the three steps fails, and the loop goes on to the next line; the outer
  \<open>None\<close> is as in \<open>evaluate_node\<close>.
\<close>

definition run_line :: "Parser \<Rightarrow> string \<Rightarrow> (mpfr option \<times> Parser) option" where
  "run_line parser line =
     (if line = [] then Some (None, parser)
      else case (if hd line = CHR ''-'' then instruction_map_execute line else (None, line)) of
        (Some c, buffer) \<Rightarrow> map_option (Pair None) (run_command c parser)
      | (None, buffer) \<Rightarrow>
          (case tokenize (tokens parser) buffer of
             (False, toks) \<Rightarrow> Some (None, parser\<lparr>tokens := toks\<rparr>)
           | (True, toks) \<Rightarrow>
               (case parse (parser\<lparr>tokens := toks\<rparr>) of
                  Inl e \<Rightarrow> Some (None, parser\<lparr>tokens := toks\<rparr>)
                | Inr (head, p1) \<Rightarrow>
                    (case evaluate_expression p1 (Some head) of
                       None \<Rightarrow> None
                     | Some (None, p2) \<Rightarrow> Some (None, p2)
                     | Some (Some result, p2) \<Rightarrow>
                         (case symbol_table_insert (symTable p2) ''last'' result 4 of
                            None \<Rightarrow> None
                          | Some table \<Rightarrow> Some (Some result, p2\<lparr>symTable := table\<rparr>))))))"

text \<open>The line is the command that ends the loop.\<close>

definition exits :: "string \<Rightarrow> bool" where
  "exits line =
     (line \<noteq> [] \<and> hd line = CHR ''-'' \<and> fst (instruction_map_execute line) = Some exit_command)"

text \<open>
  The loop over several lines, with the results of the lines in order, up to the end of
  the input or the command \<open>-exit\<close>.
\<close>

fun run_lines :: "Parser \<Rightarrow> string list \<Rightarrow> (mpfr option list \<times> Parser) option" where
  "run_lines p [] = Some ([], p)"
| "run_lines p (l # ls) =
     (case run_line p l of
        None \<Rightarrow> None
      | Some (r, p1) \<Rightarrow>
          if exits l then Some ([r], p1)
          else map_option (\<lambda>(rs, p2). (r # rs, p2)) (run_lines p1 ls))"

section \<open>Facts used to run the model on concrete lines\<close>

text \<open>An integer below \<open>2^256\<close> in absolute value fits the significand: rounding leaves it as it is.\<close>

lemma round_half_even_of_int [simp]: "round_half_even (of_int m) = m"
  by (simp add: round_half_even_def)

lemma round_half_even_numeral [simp]: "round_half_even (numeral n) = numeral n"
  using round_half_even_of_int [of "numeral n"] by simp

lemma mpfr_round_of_int:
  assumes "\<bar>k\<bar> < 2 ^ 256"
  shows "mpfr_round (of_int k) = of_int k"
proof (cases "k = 0")
  case True
  then show ?thesis by (simp add: mpfr_round_def)
next
  case False
  define e where "e = \<lfloor>log 2 \<bar>of_int k :: real\<bar>\<rfloor> - 255"
  have "1 \<le> \<bar>k\<bar>" using False by linarith
  then have "(1::real) \<le> of_int \<bar>k\<bar>" by (simp only: of_int_1_le_iff)
  then have k1: "1 \<le> \<bar>of_int k :: real\<bar>" by simp
  have "(of_int \<bar>k\<bar> :: real) < of_int (2 ^ 256)"
    using assms by (simp only: of_int_less_iff)
  then have "\<bar>of_int k :: real\<bar> < 2 ^ 256" by simp
  then have "log 2 \<bar>of_int k :: real\<bar> < 256"
    using k1 by (simp add: log_less_iff powr_realpow flip: powr_numeral)
  then have "\<lfloor>log 2 \<bar>of_int k :: real\<bar>\<rfloor> < 256"
    by (simp add: floor_less_iff)
  then have e0: "e \<le> 0" by (simp add: e_def)
  define j where "j = nat (- e)"
  have ej: "e = - int j" using e0 by (simp add: j_def)
  have p: "2 powr (of_int e :: real) = 1 / 2 ^ j"
    by (simp add: ej powr_minus powr_realpow inverse_eq_divide)
  have "of_int k / (2 powr (of_int e :: real)) = of_int (k * 2 ^ j)"
    by (simp add: p)
  then have "round_half_even (of_int k / 2 powr of_int e) = k * 2 ^ j"
    by (metis round_half_even_of_int)
  then have "mpfr_round (of_int k) = of_int (k * 2 ^ j) * 2 powr of_int e"
    using False by (simp add: mpfr_round_def Let_def e_def)
  also have "\<dots> = of_int k" by (simp add: p)
  finally show ?thesis .
qed

lemma mpfr_round_numeral [simp]:
  "(numeral n :: int) < 2 ^ 256 \<Longrightarrow> mpfr_round (numeral n) = numeral n"
  using mpfr_round_of_int [of "numeral n"] by simp

lemma mpfr_round_neg_numeral [simp]:
  "(numeral n :: int) < 2 ^ 256 \<Longrightarrow> mpfr_round (- numeral n) = - numeral n"
  using mpfr_round_of_int [of "- numeral n"] by simp

lemma mpfr_round_1 [simp]: "mpfr_round 1 = 1"
  using mpfr_round_of_int [of 1] by simp

lemma mpfr_round_0 [simp]: "mpfr_round 0 = 0"
  by (simp add: mpfr_round_def)

lemma mpfr_round_neg_1 [simp]: "mpfr_round (- 1) = - 1"
  using mpfr_round_of_int [of "- 1"] by simp

text \<open>Such an integer, other than zero, is in the exponent range.\<close>

lemma mpfr_check_range_of_int:
  assumes "k \<noteq> 0" and "\<bar>k\<bar> < 2 ^ 256"
  shows "mpfr_check_range (of_int k) = Regular (of_int k)"
proof -
  have r: "mpfr_round (of_int k) = of_int k"
    using assms(2) by (rule mpfr_round_of_int)
  have "(of_int \<bar>k\<bar> :: real) < of_int (2 ^ 256)"
    using assms(2) by (simp only: of_int_less_iff)
  then have "\<bar>of_int k :: real\<bar> < 2 powr 256"
    by (simp add: powr_realpow flip: powr_numeral)
  also have "(2::real) powr 256 \<le> 2 powr of_int MPFR_EMAX_DEFAULT"
    by (rule powr_mono) (simp_all add: MPFR_EMAX_DEFAULT_def)
  finally have hi: "\<not> 2 powr of_int MPFR_EMAX_DEFAULT \<le> \<bar>of_int k :: real\<bar>"
    by simp
  have "1 \<le> \<bar>k\<bar>" using assms(1) by linarith
  then have "(1::real) \<le> of_int \<bar>k\<bar>" by (simp only: of_int_1_le_iff)
  then have k1: "1 \<le> \<bar>of_int k :: real\<bar>" by simp
  have "(2::real) powr of_int (MPFR_EMIN_DEFAULT - 1) \<le> 2 powr 0"
    by (rule powr_mono) (simp_all add: MPFR_EMIN_DEFAULT_def)
  then have "(2::real) powr of_int (MPFR_EMIN_DEFAULT - 1) \<le> \<bar>of_int k :: real\<bar>"
    using k1 by simp
  then have lo: "\<not> \<bar>of_int k :: real\<bar> < 2 powr of_int (MPFR_EMIN_DEFAULT - 1)"
    by simp
  show ?thesis
    unfolding mpfr_check_range_def r using hi lo by simp
qed

lemma mpfr_check_range_numeral [simp]:
  "(numeral n :: int) < 2 ^ 256 \<Longrightarrow> mpfr_check_range (numeral n) = Regular (numeral n)"
  using mpfr_check_range_of_int [of "numeral n"] by simp

lemma mpfr_check_range_neg_numeral [simp]:
  "(numeral n :: int) < 2 ^ 256 \<Longrightarrow> mpfr_check_range (- numeral n) = Regular (- numeral n)"
  using mpfr_check_range_of_int [of "- numeral n"] by simp

lemma mpfr_check_range_1 [simp]: "mpfr_check_range 1 = Regular 1"
  using mpfr_check_range_of_int [of 1] by simp

lemma mpfr_check_range_neg_1 [simp]: "mpfr_check_range (- 1) = Regular (- 1)"
  using mpfr_check_range_of_int [of "- 1"] by simp

text \<open>
  The same for such an integer times a power of two: it has at most 256 bits, and it is in
  the exponent range when the power is.
\<close>

lemma mpfr_round_dyadic:
  assumes "\<bar>k\<bar> < 2 ^ 256"
  shows "mpfr_round (of_int k * 2 powr of_int m) = of_int k * 2 powr of_int m"
proof (cases "k = 0")
  case True
  then show ?thesis by (simp add: mpfr_round_def)
next
  case False
  define x :: real where "x = of_int k * 2 powr of_int m"
  define e where "e = \<lfloor>log 2 \<bar>x\<bar>\<rfloor> - 255"
  have x0: "x \<noteq> 0" using False by (simp add: x_def)
  have "(of_int \<bar>k\<bar> :: real) < of_int (2 ^ 256)"
    using assms by (simp only: of_int_less_iff)
  then have kl: "\<bar>of_int k :: real\<bar> < 2 powr 256"
    by (simp add: powr_realpow flip: powr_numeral)
  have ax: "\<bar>x\<bar> = \<bar>of_int k\<bar> * 2 powr of_int m"
    by (simp add: x_def abs_mult)
  have "\<bar>x\<bar> < 2 powr 256 * 2 powr of_int m"
    unfolding ax using kl by (simp add: mult_strict_right_mono)
  then have "\<bar>x\<bar> < 2 powr (256 + of_int m)"
    by (simp add: powr_add)
  then have "log 2 \<bar>x\<bar> < 256 + of_int m"
    using x0 by (simp add: log_less_iff)
  then have "\<lfloor>log 2 \<bar>x\<bar>\<rfloor> < 256 + m"
    by (simp add: floor_less_iff)
  then have em: "e \<le> m" by (simp add: e_def)
  define j where "j = nat (m - e)"
  have me: "of_int m - of_int e = real j"
    using em by (simp add: j_def)
  have p: "2 powr (of_int m - of_int e :: real) = 2 ^ j"
    unfolding me by (simp add: powr_realpow)
  have "x / 2 powr of_int e = of_int k * 2 powr (of_int m - of_int e)"
    by (simp add: x_def powr_diff)
  also have "\<dots> = of_int (k * 2 ^ j)"
    by (simp add: p)
  finally have "round_half_even (x / 2 powr of_int e) = k * 2 ^ j"
    by (metis round_half_even_of_int)
  then have "mpfr_round x = of_int (k * 2 ^ j) * 2 powr of_int e"
    using x0 by (simp add: mpfr_round_def Let_def e_def)
  also have "\<dots> = of_int k * (2 powr (of_int m - of_int e) * 2 powr of_int e)"
    by (simp add: p)
  also have "\<dots> = x"
    by (simp add: x_def flip: powr_add)
  finally show ?thesis by (simp add: x_def)
qed

lemma mpfr_check_range_dyadic:
  assumes "k \<noteq> 0" and "\<bar>k\<bar> < 2 ^ 256" and "0 \<le> m + 1073741823" and "m + 256 \<le> 1073741823"
  shows "mpfr_check_range (of_int k * 2 powr of_int m) = Regular (of_int k * 2 powr of_int m)"
proof -
  define x :: real where "x = of_int k * 2 powr of_int m"
  have r: "mpfr_round x = x"
    unfolding x_def using assms(2) by (rule mpfr_round_dyadic)
  have "(of_int \<bar>k\<bar> :: real) < of_int (2 ^ 256)"
    using assms(2) by (simp only: of_int_less_iff)
  then have kl: "\<bar>of_int k :: real\<bar> < 2 powr 256"
    by (simp add: powr_realpow flip: powr_numeral)
  have ax: "\<bar>x\<bar> = \<bar>of_int k\<bar> * 2 powr of_int m"
    by (simp add: x_def abs_mult)
  have "\<bar>x\<bar> < 2 powr 256 * 2 powr of_int m"
    unfolding ax using kl by (simp add: mult_strict_right_mono)
  then have "\<bar>x\<bar> < 2 powr (of_int (256 + m))"
    by (simp add: powr_add)
  also have "(2::real) powr (of_int (256 + m)) \<le> 2 powr of_int MPFR_EMAX_DEFAULT"
    using assms(4) by (intro powr_mono) (simp_all add: MPFR_EMAX_DEFAULT_def)
  finally have hi: "\<not> 2 powr of_int MPFR_EMAX_DEFAULT \<le> \<bar>x\<bar>"
    by simp
  have "1 \<le> \<bar>k\<bar>" using assms(1) by linarith
  then have "(1::real) \<le> of_int \<bar>k\<bar>" by (simp only: of_int_1_le_iff)
  then have k1: "1 \<le> \<bar>of_int k :: real\<bar>" by simp
  have "(2::real) powr of_int (MPFR_EMIN_DEFAULT - 1) \<le> 2 powr of_int m"
    using assms(3) by (intro powr_mono) (simp_all add: MPFR_EMIN_DEFAULT_def)
  also have "\<dots> \<le> \<bar>x\<bar>"
    unfolding ax using k1 by (simp add: mult_le_cancel_right1)
  finally have lo: "\<not> \<bar>x\<bar> < 2 powr of_int (MPFR_EMIN_DEFAULT - 1)"
    by simp
  show ?thesis
    unfolding mpfr_check_range_def x_def [symmetric] r using hi lo by simp
qed

lemmas tokenize_defs = tokenize_def token_buffer_create_def token_buffer_add_def is_space_def
  is_digit_def lookupTable_def op_token_def unary_position_def negate_last_def
  TOKEN_LEXEME_LEN_LIMIT_def TOKEN_BUFFER_SIZE_def

lemmas parse_defs = parse_def parse_statement_def parse_primary.simps parse_power.simps
  parse_term_loop.simps parse_term.simps parse_expression_loop.simps parse_expression.simps
  peek_def peek_next_def consume_def match_def expect_def create_leaf_node_def
  create_binary_node_def parser_create_def

lemmas mpfr_defs = mpfr_set_str_def mk_val_def decimal_value_def digit_value_def
  mpfr_pow_def mpfr_add_def mpfr_sub_def mpfr_mul_def mpfr_div_def mpfr_modf_def

lemmas evaluate_defs = evaluate_expression_def token_adjust_lexeme_def is_binary_def
  binary_result_def MPRF_BUFFER_SIZE_def TOKEN_LEXEME_LEN_LIMIT_def

lemmas table_defs = symbol_table_create_def symbol_table_insert_def symbol_table_get_def
  symbol_table_resize_def bucket_index_def hash_string_def hash_step_def sym_match_def
  sprintf_overruns_def SYMBOL_MAP_BASE_SIZE_def

lemmas run_defs = run_line_def exits_def instruction_map_execute_def strtok_blank_def Let_def
  instruction_map_lookup_def run_command_def tokenize_defs parse_defs evaluate_defs mpfr_defs
  table_defs

text \<open>Short names for the tokens and trees of the statements below.\<close>

abbreviation tk :: "TokenType \<Rightarrow> string \<Rightarrow> nat \<Rightarrow> Token" where
  "tk ty s n \<equiv> \<lparr>lexeme = s, type = ty, len = n, negative = False\<rparr>"

abbreviation leaf :: "Token \<Rightarrow> ASTNode" where
  "leaf t \<equiv> ASTNode t None None"

abbreviation binary :: "Token \<Rightarrow> ASTNode \<Rightarrow> ASTNode \<Rightarrow> ASTNode" where
  "binary op l r \<equiv> ASTNode op (Some l) (Some r)"

section \<open>Properties of the grammar\<close>

text \<open>
  \<open>has_assign n\<close>: some node of the tree \<open>n\<close> carries the token \<open>=\<close>.
\<close>

fun has_assign :: "ASTNode \<Rightarrow> bool" where
  "has_assign (ASTNode t l r) =
     (type t = TOK_ASSING \<or> (case l of None \<Rightarrow> False | Some n \<Rightarrow> has_assign n) \<or>
      (case r of None \<Rightarrow> False | Some n \<Rightarrow> has_assign n))"

text \<open>
  \<open>advanced p p'\<close>: what a successful parsing function does to the parser, apart from the
  tree it returns.  The token buffer and the size of the node buffer are as before, the
  token cursor has not moved back and is still within the tokens if it was, and no more
  nodes have been made than tokens have been read.
\<close>

definition advanced :: "Parser \<Rightarrow> Parser \<Rightarrow> bool" where
  "advanced p p' \<longleftrightarrow>
     tokens p' = tokens p \<and> nodes_size p' = nodes_size p \<and>
     curr_tok p \<le> curr_tok p' \<and>
     (curr_tok p \<le> length (token_buff (tokens p)) \<longrightarrow>
        curr_tok p' \<le> length (token_buff (tokens p))) \<and>
     curr_node p' + curr_tok p \<le> curr_node p + curr_tok p'"

lemma match_consume:
  "match p ty \<Longrightarrow> consume p = Inr (t, p1) \<Longrightarrow> type t = ty"
  by (auto simp: match_def peek_def consume_def split: if_splits)

text \<open>
  Every function of the grammar, when it succeeds, has read at least one token (the two
  loops may read none) and returns a tree without \<open>=\<close>, given that the tree the loop
  started from had none.
\<close>

lemma parse_success:
  "parse_primary p = Inr (n, p') \<Longrightarrow>
     advanced p p' \<and> curr_tok p < curr_tok p' \<and> \<not> has_assign n"
  "parse_power p = Inr (n, p') \<Longrightarrow>
     advanced p p' \<and> curr_tok p < curr_tok p' \<and> \<not> has_assign n"
  "parse_term_loop p l = Inr (n, p') \<Longrightarrow>
     advanced p p' \<and> (\<not> has_assign l \<longrightarrow> \<not> has_assign n)"
  "parse_term p = Inr (n, p') \<Longrightarrow>
     advanced p p' \<and> curr_tok p < curr_tok p' \<and> \<not> has_assign n"
  "parse_expression_loop p l = Inr (n, p') \<Longrightarrow>
     advanced p p' \<and> (\<not> has_assign l \<longrightarrow> \<not> has_assign n)"
  "parse_expression p = Inr (n, p') \<Longrightarrow>
     advanced p p' \<and> curr_tok p < curr_tok p' \<and> \<not> has_assign n"
proof (induct arbitrary: n p' and n p' and n p' and n p' and n p' and n p'
    rule: parse_primary_parse_power_parse_term_loop_parse_term_parse_expression_loop_parse_expression.induct)
  case (1 p)
  note eq = "1.prems" [unfolded parse_primary.simps [of p]]
  from eq obtain t where pk: "peek p = Some t"
    by (auto split: option.splits)
  show ?case
  proof (cases "type t = TOK_NUM \<or> type t = TOK_VAR")
    case True
    with eq pk show ?thesis
      by (auto simp: parse_step_iffs advanced_def peek_def split: sum.splits prod.splits if_splits)
  next
    case nv: False
    show ?thesis
    proof (cases "type t = TOK_LPAR")
      case True
      with eq pk nv obtain tok p1 expr p2 tok2 where
        c1: "consume p = Inr (tok, p1)" and e: "parse_expression p1 = Inr (expr, p2)" and
        c2: "consume p2 = Inr (tok2, p')" and n: "n = expr"
        by (auto split: sum.splits prod.splits if_splits)
      from "1.hyps"(1) [OF pk nv True c1 refl e] c1 c2 n show ?thesis
        by (auto simp: parse_step_iffs advanced_def)
    next
      case nl: False
      with eq pk nv have sq: "type t = TOK_SQUARE"
        by (auto split: if_splits)
      with eq pk nv nl obtain tok p1 s p2 tok2 p3 arg p4 tok3 where
        c1: "consume p = Inr (tok, p1)" and cl: "create_leaf_node p1 tok = Inr (s, p2)" and
        ex: "\<not> \<not> expect p2 TOK_LPAR" and
        c2: "consume p2 = Inr (tok2, p3)" and e: "parse_expression p3 = Inr (arg, p4)" and
        c3: "consume p4 = Inr (tok3, p')" and n: "n = ASTNode (token s) (Some arg) None"
        by (auto split: sum.splits prod.splits if_splits)
      from pk c1 sq have "type tok = TOK_SQUARE"
        by (auto simp: peek_def consume_def split: if_splits)
      with "1.hyps"(2) [OF pk nv nl sq c1 refl cl refl ex c2 refl e] c1 cl c2 c3 n show ?thesis
        by (auto simp: parse_step_iffs advanced_def)
    qed
  qed
next
  case (2 p)
  note eq = "2.prems" [unfolded parse_power.simps [of p]]
  from eq obtain l p1 where pp: "parse_primary p = Inr (l, p1)"
    by (auto split: sum.splits)
  note m1 = "2.hyps"(1) [OF pp]
  show ?case
  proof (cases "match p1 TOK_POWER")
    case False
    with eq pp m1 show ?thesis by simp
  next
    case True
    with eq pp obtain op p2 r p3 where
      c: "consume p1 = Inr (op, p2)" and pw: "parse_power p2 = Inr (r, p3)" and
      cb: "create_binary_node p3 op l r = Inr (n, p')"
      by (auto split: sum.splits prod.splits)
    from match_consume [OF True c] "2.hyps"(2) [OF pp refl True c refl pw] m1 c cb show ?thesis
      by (auto simp: parse_step_iffs advanced_def)
  qed
next
  case (3 p l)
  note eq = "3.prems" [unfolded parse_term_loop.simps [of p l]]
  show ?case
  proof (cases "match p TOK_MULT \<or> match p TOK_DIVIDE \<or> match p TOK_MODULE")
    case False
    with eq show ?thesis by (simp add: advanced_def)
  next
    case True
    with eq obtain op p1 r p2 nd p3 where
      c: "consume p = Inr (op, p1)" and pw: "parse_power p1 = Inr (r, p2)" and
      cb: "create_binary_node p2 op l r = Inr (nd, p3)" and
      lp: "parse_term_loop p3 nd = Inr (n, p')"
      by (auto split: sum.splits prod.splits)
    from True c have "type op \<noteq> TOK_ASSING"
      by (auto dest: match_consume)
    with "3.hyps"(1) [OF True c refl pw] "3.hyps"(2) [OF True c refl pw refl cb refl lp] c cb
    show ?thesis
      by (auto simp: parse_step_iffs advanced_def)
  qed
next
  case (4 p)
  note eq = "4.prems" [unfolded parse_term.simps [of p]]
  from eq obtain l p1 where pw: "parse_power p = Inr (l, p1)" and
    lp: "parse_term_loop p1 l = Inr (n, p')"
    by (auto split: sum.splits prod.splits)
  from "4.hyps"(1) [OF pw] "4.hyps"(2) [OF pw refl lp] show ?case
    by (auto simp: advanced_def)
next
  case (5 p l)
  note eq = "5.prems" [unfolded parse_expression_loop.simps [of p l]]
  show ?case
  proof (cases "match p TOK_ADD \<or> match p TOK_SUB")
    case False
    with eq show ?thesis by (simp add: advanced_def)
  next
    case True
    with eq obtain op p1 r p2 nd p3 where
      c: "consume p = Inr (op, p1)" and pw: "parse_term p1 = Inr (r, p2)" and
      cb: "create_binary_node p2 op l r = Inr (nd, p3)" and
      lp: "parse_expression_loop p3 nd = Inr (n, p')"
      by (auto split: sum.splits prod.splits)
    from True c have "type op \<noteq> TOK_ASSING"
      by (auto dest: match_consume)
    with "5.hyps"(1) [OF True c refl pw] "5.hyps"(2) [OF True c refl pw refl cb refl lp] c cb
    show ?thesis
      by (auto simp: parse_step_iffs advanced_def)
  qed
next
  case (6 p)
  note eq = "6.prems" [unfolded parse_expression.simps [of p]]
  from eq obtain l p1 where pw: "parse_term p = Inr (l, p1)" and
    lp: "parse_expression_loop p1 l = Inr (n, p')"
    by (auto split: sum.splits prod.splits)
  from "6.hyps"(1) [OF pw] "6.hyps"(2) [OF pw refl lp] show ?case
    by (auto simp: advanced_def)
qed

text \<open>
  Two runs of the grammar, on a token sequence and on the same sequence with \<open>rest\<close>
  appended, from the same cursor positions (\<open>extends\<close>; the node buffer of the second
  run is as large as its token sequence).  The first run \<open>stops\<close> independently of \<open>rest\<close>
  if it ends before the last token, or if the first token of \<open>rest\<close> is none of the
  operators that a loop of the grammar or \<^verbatim>\<open>parse_power\<close> looks for.
\<close>

definition extends :: "Token list \<Rightarrow> Parser \<Rightarrow> Parser \<Rightarrow> bool" where
  "extends rest p q \<longleftrightarrow>
     token_buff (tokens q) = token_buff (tokens p) @ rest \<and>
     curr_tok q = curr_tok p \<and> curr_node q = curr_node p \<and>
     length (token_buff (tokens p) @ rest) \<le> nodes_size q"

definition continues :: "TokenType \<Rightarrow> bool" where
  "continues ty \<longleftrightarrow>
     ty = TOK_POWER \<or> ty = TOK_MULT \<or> ty = TOK_DIVIDE \<or> ty = TOK_MODULE \<or>
     ty = TOK_ADD \<or> ty = TOK_SUB"

definition stops :: "Token list \<Rightarrow> Parser \<Rightarrow> bool" where
  "stops rest p \<longleftrightarrow>
     curr_tok p < length (token_buff (tokens p)) \<or> rest = [] \<or> \<not> continues (type (hd rest))"

definition in_range :: "Parser \<Rightarrow> bool" where
  "in_range p \<longleftrightarrow> curr_node p \<le> curr_tok p \<and> curr_tok p \<le> length (token_buff (tokens p))"

lemma stops_back: "stops rest p' \<Longrightarrow> advanced p p' \<Longrightarrow> stops rest p"
  by (auto simp: stops_def advanced_def)

lemma in_range_advanced: "in_range p \<Longrightarrow> advanced p p' \<Longrightarrow> in_range p'"
  by (auto simp: in_range_def advanced_def)

lemma peek_extends:
  "extends rest p q \<Longrightarrow> curr_tok p < length (token_buff (tokens p)) \<Longrightarrow> peek q = peek p"
  by (auto simp: extends_def peek_def nth_append)

lemma peek_Some_less: "peek p = Some t \<Longrightarrow> curr_tok p < length (token_buff (tokens p))"
  by (auto simp: peek_def split: if_splits)

lemma match_extends:
  assumes "extends rest p q" and "in_range p" and "stops rest p" and "continues ty"
  shows "match q ty = match p ty"
proof (cases "curr_tok p < length (token_buff (tokens p))")
  case True
  with assms(1) show ?thesis by (simp add: match_def peek_extends)
next
  case False
  with assms(2) have e: "curr_tok p = length (token_buff (tokens p))"
    by (simp add: in_range_def)
  with assms(3,4) have "rest = [] \<or> type (hd rest) \<noteq> ty"
    by (auto simp: stops_def)
  with e assms(1) show ?thesis
    by (cases rest) (auto simp: match_def peek_def extends_def nth_append)
qed

lemma expect_extends:
  "extends rest p q \<Longrightarrow> expect p ty \<Longrightarrow> expect q ty"
  by (auto simp: expect_def peek_def extends_def nth_append split: option.splits if_splits)

lemma consume_extends:
  assumes "consume p = Inr (t, p1)" and "extends rest p q" and "in_range p"
  shows "\<exists>q1. consume q = Inr (t, q1) \<and> extends rest p1 q1 \<and> nodes_size q1 = nodes_size q"
  using assms
  by (auto simp: consume_Inr_iff extends_def in_range_def nth_append)

lemma create_leaf_node_extends:
  assumes "create_leaf_node p t = Inr (n, p1)" and "extends rest p q"
    and "curr_node p < length (token_buff (tokens p))"
  shows "\<exists>q1. create_leaf_node q t = Inr (n, q1) \<and> extends rest p1 q1 \<and> nodes_size q1 = nodes_size q"
  using assms
  by (auto simp: create_leaf_node_Inr_iff extends_def)

lemma create_binary_node_extends:
  assumes "create_binary_node p t l r = Inr (n, p1)" and "extends rest p q"
    and "curr_node p < length (token_buff (tokens p))"
  shows "\<exists>q1. create_binary_node q t l r = Inr (n, q1) \<and> extends rest p1 q1 \<and>
           nodes_size q1 = nodes_size q"
  using assms
  by (auto simp: create_binary_node_Inr_iff extends_def)

lemma consume_advanced:
  "consume p = Inr (t, p1) \<Longrightarrow>
     tokens p1 = tokens p \<and> nodes_size p1 = nodes_size p \<and> curr_tok p1 = Suc (curr_tok p) \<and>
     curr_node p1 = curr_node p \<and> curr_tok p < length (token_buff (tokens p))"
  by (auto simp: consume_Inr_iff)

lemma create_binary_node_advanced:
  "create_binary_node p t l r = Inr (n, p1) \<Longrightarrow>
     tokens p1 = tokens p \<and> nodes_size p1 = nodes_size p \<and> curr_tok p1 = curr_tok p \<and>
     curr_node p1 = Suc (curr_node p)"
  by (auto simp: create_binary_node_Inr_iff)

lemma create_leaf_node_advanced:
  "create_leaf_node p t = Inr (n, p1) \<Longrightarrow>
     tokens p1 = tokens p \<and> nodes_size p1 = nodes_size p \<and> curr_tok p1 = curr_tok p \<and>
     curr_node p1 = Suc (curr_node p)"
  by (auto simp: create_leaf_node_Inr_iff)

lemma match_less: "match p ty \<Longrightarrow> curr_tok p < length (token_buff (tokens p))"
  by (auto simp: match_def peek_def split: if_splits option.splits)

lemma expect_less: "expect p ty \<Longrightarrow> curr_tok p < length (token_buff (tokens p))"
  by (auto simp: expect_def peek_def split: if_splits option.splits)

lemma match_extends_less:
  "extends rest p q \<Longrightarrow> curr_tok p < length (token_buff (tokens p)) \<Longrightarrow> match q ty = match p ty"
  by (simp add: match_def peek_extends)

lemma parse_extends:
  "parse_primary p = Inr (n, p') \<Longrightarrow> extends rest p q \<Longrightarrow> in_range p \<Longrightarrow> stops rest p' \<Longrightarrow>
     \<exists>q'. parse_primary q = Inr (n, q') \<and> extends rest p' q' \<and> nodes_size q' = nodes_size q"
  "parse_power p = Inr (n, p') \<Longrightarrow> extends rest p q \<Longrightarrow> in_range p \<Longrightarrow> stops rest p' \<Longrightarrow>
     \<exists>q'. parse_power q = Inr (n, q') \<and> extends rest p' q' \<and> nodes_size q' = nodes_size q"
  "parse_term_loop p l = Inr (n, p') \<Longrightarrow> extends rest p q \<Longrightarrow> in_range p \<Longrightarrow> stops rest p' \<Longrightarrow>
     \<exists>q'. parse_term_loop q l = Inr (n, q') \<and> extends rest p' q' \<and> nodes_size q' = nodes_size q"
  "parse_term p = Inr (n, p') \<Longrightarrow> extends rest p q \<Longrightarrow> in_range p \<Longrightarrow> stops rest p' \<Longrightarrow>
     \<exists>q'. parse_term q = Inr (n, q') \<and> extends rest p' q' \<and> nodes_size q' = nodes_size q"
  "parse_expression_loop p l = Inr (n, p') \<Longrightarrow> extends rest p q \<Longrightarrow> in_range p \<Longrightarrow>
     stops rest p' \<Longrightarrow>
     \<exists>q'. parse_expression_loop q l = Inr (n, q') \<and> extends rest p' q' \<and>
          nodes_size q' = nodes_size q"
  "parse_expression p = Inr (n, p') \<Longrightarrow> extends rest p q \<Longrightarrow> in_range p \<Longrightarrow> stops rest p' \<Longrightarrow>
     \<exists>q'. parse_expression q = Inr (n, q') \<and> extends rest p' q' \<and> nodes_size q' = nodes_size q"
proof (induct arbitrary: n p' q and n p' q and n p' q and n p' q and n p' q and n p' q
    rule: parse_primary_parse_power_parse_term_loop_parse_term_parse_expression_loop_parse_expression.induct)
  case (1 p)
  note ext = \<open>extends rest p q\<close> and inr = \<open>in_range p\<close> and st = \<open>stops rest p'\<close>
  note eq = "1.prems"(1) [unfolded parse_primary.simps [of p]]
  from eq obtain t where pk: "peek p = Some t"
    by (auto split: option.splits)
  from peek_extends [OF ext peek_Some_less [OF pk]] pk have pkq: "peek q = Some t" by simp
  show ?case
  proof (cases "type t = TOK_NUM \<or> type t = TOK_VAR")
    case True
    with eq pk obtain tok p1 where
      c1: "consume p = Inr (tok, p1)" and cl: "create_leaf_node p1 tok = Inr (n, p')"
      by (auto split: sum.splits prod.splits)
    from consume_extends [OF c1 ext inr] obtain q1 where
      cq1: "consume q = Inr (tok, q1)" and e1: "extends rest p1 q1" and
      s1: "nodes_size q1 = nodes_size q" by blast
    from consume_advanced [OF c1] inr
    have "curr_node p1 < length (token_buff (tokens p1))"
      by (auto simp: in_range_def)
    from create_leaf_node_extends [OF cl e1 this] obtain q' where
      "create_leaf_node q1 tok = Inr (n, q')" "extends rest p' q'" "nodes_size q' = nodes_size q1"
      by blast
    with True pkq cq1 s1 show ?thesis
      by (simp add: parse_primary.simps [of q])
  next
    case nv: False
    show ?thesis
    proof (cases "type t = TOK_LPAR")
      case True
      with eq pk nv obtain tok p1 expr p2 tok2 where
        c1: "consume p = Inr (tok, p1)" and e: "parse_expression p1 = Inr (expr, p2)" and
        ex: "expect p2 TOK_RPAR" and
        c2: "consume p2 = Inr (tok2, p')" and n: "n = expr"
        by (auto split: sum.splits prod.splits if_splits)
      from consume_extends [OF c1 ext inr] obtain q1 where
        cq1: "consume q = Inr (tok, q1)" and e1: "extends rest p1 q1" and
        s1: "nodes_size q1 = nodes_size q" by blast
      from consume_advanced [OF c1] inr have inr1: "in_range p1"
        by (auto simp: in_range_def)
      from expect_less [OF ex] have st2: "stops rest p2"
        by (simp add: stops_def)
      from "1.hyps"(1) [OF pk nv True c1 refl e e1 inr1 st2] obtain q2 where
        eq2: "parse_expression q1 = Inr (expr, q2)" and e2: "extends rest p2 q2" and
        s2: "nodes_size q2 = nodes_size q1" by blast
      from parse_success(6) [OF e] inr1 have inr2: "in_range p2"
        by (auto intro: in_range_advanced)
      from consume_extends [OF c2 e2 inr2] obtain q3 where
        cq2: "consume q2 = Inr (tok2, q3)" and e3: "extends rest p' q3" and
        s3: "nodes_size q3 = nodes_size q2" by blast
      from nv True pkq cq1 eq2 expect_extends [OF e2 ex] cq2 n e3 s1 s2 s3 show ?thesis
        by (simp add: parse_primary.simps [of q])
    next
      case nl: False
      with eq pk nv have sq: "type t = TOK_SQUARE"
        by (auto split: if_splits)
      with eq pk nv nl obtain tok p1 s p2 tok2 p3 arg p4 tok3 where
        c1: "consume p = Inr (tok, p1)" and cl: "create_leaf_node p1 tok = Inr (s, p2)" and
        ex: "expect p2 TOK_LPAR" and
        c2: "consume p2 = Inr (tok2, p3)" and e: "parse_expression p3 = Inr (arg, p4)" and
        ex4: "expect p4 TOK_RPAR" and
        c3: "consume p4 = Inr (tok3, p')" and n: "n = ASTNode (token s) (Some arg) None"
        by (auto split: sum.splits prod.splits if_splits)
      from consume_extends [OF c1 ext inr] obtain q1 where
        cq1: "consume q = Inr (tok, q1)" and e1: "extends rest p1 q1" and
        s1: "nodes_size q1 = nodes_size q" by blast
      from consume_advanced [OF c1] inr
      have "curr_node p1 < length (token_buff (tokens p1))"
        by (auto simp: in_range_def)
      from create_leaf_node_extends [OF cl e1 this] obtain q2 where
        clq: "create_leaf_node q1 tok = Inr (s, q2)" and e2: "extends rest p2 q2" and
        s2: "nodes_size q2 = nodes_size q1" by blast
      from consume_advanced [OF c1] create_leaf_node_advanced [OF cl] inr have inr2: "in_range p2"
        by (auto simp: in_range_def)
      from consume_extends [OF c2 e2 inr2] obtain q3 where
        cq2: "consume q2 = Inr (tok2, q3)" and e3: "extends rest p3 q3" and
        s3: "nodes_size q3 = nodes_size q2" by blast
      from consume_advanced [OF c2] inr2 have inr3: "in_range p3"
        by (auto simp: in_range_def)
      from expect_less [OF ex4] have st4: "stops rest p4"
        by (simp add: stops_def)
      from "1.hyps"(2) [OF pk nv nl sq c1 refl cl refl _ c2 refl e e3 inr3 st4] ex obtain q4 where
        eq4: "parse_expression q3 = Inr (arg, q4)" and e4: "extends rest p4 q4" and
        s4: "nodes_size q4 = nodes_size q3" by blast
      from parse_success(6) [OF e] inr3 have inr4: "in_range p4"
        by (auto intro: in_range_advanced)
      from consume_extends [OF c3 e4 inr4] obtain q5 where
        cq3: "consume q4 = Inr (tok3, q5)" and e5: "extends rest p' q5" and
        s5: "nodes_size q5 = nodes_size q4" by blast
      from nv nl sq pkq cq1 clq expect_extends [OF e2 ex] cq2 eq4 expect_extends [OF e4 ex4] cq3
        n e5 s1 s2 s3 s4 s5 show ?thesis
        by (simp add: parse_primary.simps [of q])
    qed
  qed
next
  case (2 p)
  note ext = \<open>extends rest p q\<close> and inr = \<open>in_range p\<close> and st = \<open>stops rest p'\<close>
  note eq = "2.prems"(1) [unfolded parse_power.simps [of p]]
  from eq obtain l p1 where pp: "parse_primary p = Inr (l, p1)"
    by (auto split: sum.splits)
  from parse_success(1) [OF pp] have adv1: "advanced p p1" by simp
  from in_range_advanced [OF inr adv1] have inr1: "in_range p1" .
  show ?case
  proof (cases "match p1 TOK_POWER")
    case False
    with eq pp have np: "n = l" "p' = p1" by simp_all
    from "2.hyps"(1) [OF pp ext inr] st np obtain q1 where
      pq: "parse_primary q = Inr (l, q1)" and e1: "extends rest p1 q1" and
      s1: "nodes_size q1 = nodes_size q" by blast
    from match_extends [OF e1 inr1, of TOK_POWER] st np False have "\<not> match q1 TOK_POWER"
      by (simp add: continues_def)
    with pq e1 s1 np show ?thesis
      by (simp add: parse_power.simps [of q])
  next
    case True
    with eq pp obtain op p2 r p3 where
      c: "consume p1 = Inr (op, p2)" and pw: "parse_power p2 = Inr (r, p3)" and
      cb: "create_binary_node p3 op l r = Inr (n, p')"
      by (auto split: sum.splits prod.splits)
    from match_less [OF True] have st1: "stops rest p1" by (simp add: stops_def)
    from "2.hyps"(1) [OF pp ext inr st1] obtain q1 where
      pq: "parse_primary q = Inr (l, q1)" and e1: "extends rest p1 q1" and
      s1: "nodes_size q1 = nodes_size q" by blast
    from match_extends_less [OF e1 match_less [OF True]] True have mq: "match q1 TOK_POWER"
      by simp
    from consume_extends [OF c e1 inr1] obtain q2 where
      cq: "consume q1 = Inr (op, q2)" and e2: "extends rest p2 q2" and
      s2: "nodes_size q2 = nodes_size q1" by blast
    from consume_advanced [OF c] inr1 have inr2: "in_range p2" and
      lt2: "curr_node p2 < curr_tok p2"
      by (auto simp: in_range_def)
    from create_binary_node_advanced [OF cb] st have st3: "stops rest p3"
      by (simp add: stops_def)
    from "2.hyps"(2) [OF pp refl True c refl pw e2 inr2 st3] obtain q3 where
      pwq: "parse_power q2 = Inr (r, q3)" and e3: "extends rest p3 q3" and
      s3: "nodes_size q3 = nodes_size q2" by blast
    from parse_success(2) [OF pw] have adv3: "advanced p2 p3" by simp
    from in_range_advanced [OF inr2 adv3] adv3 lt2
    have "curr_node p3 < length (token_buff (tokens p3))"
      by (auto simp: in_range_def advanced_def)
    from create_binary_node_extends [OF cb e3 this] obtain q' where
      "create_binary_node q3 op l r = Inr (n, q')" "extends rest p' q'"
      "nodes_size q' = nodes_size q3" by blast
    with pq mq cq pwq s1 s2 s3 show ?thesis
      by (simp add: parse_power.simps [of q])
  qed
next
  case (3 p l)
  note ext = \<open>extends rest p q\<close> and inr = \<open>in_range p\<close> and st = \<open>stops rest p'\<close>
  note eq = "3.prems"(1) [unfolded parse_term_loop.simps [of p l]]
  show ?case
  proof (cases "match p TOK_MULT \<or> match p TOK_DIVIDE \<or> match p TOK_MODULE")
    case False
    with eq have np: "n = l" "p' = p" by simp_all
    from match_extends [OF ext inr, of TOK_MULT] match_extends [OF ext inr, of TOK_DIVIDE]
      match_extends [OF ext inr, of TOK_MODULE] st np False
    have "\<not> (match q TOK_MULT \<or> match q TOK_DIVIDE \<or> match q TOK_MODULE)"
      by (simp add: continues_def)
    with ext np show ?thesis
      by (simp add: parse_term_loop.simps [of q l])
  next
    case True
    with eq obtain op p1 r p2 nd p3 where
      c: "consume p = Inr (op, p1)" and pw: "parse_power p1 = Inr (r, p2)" and
      cb: "create_binary_node p2 op l r = Inr (nd, p3)" and
      lp: "parse_term_loop p3 nd = Inr (n, p')"
      by (auto split: sum.splits prod.splits)
    from consume_advanced [OF c] have lt: "curr_tok p < length (token_buff (tokens p))" by simp
    from True match_extends_less [OF ext lt]
    have mq: "match q TOK_MULT \<or> match q TOK_DIVIDE \<or> match q TOK_MODULE" by simp
    from consume_extends [OF c ext inr] obtain q1 where
      cq: "consume q = Inr (op, q1)" and e1: "extends rest p1 q1" and
      s1: "nodes_size q1 = nodes_size q" by blast
    from consume_advanced [OF c] inr have inr1: "in_range p1" and
      lt1: "curr_node p1 < curr_tok p1"
      by (auto simp: in_range_def)
    from parse_success(3) [OF lp] have adv': "advanced p3 p'" by simp
    from stops_back [OF st adv'] create_binary_node_advanced [OF cb] have st2: "stops rest p2"
      by (simp add: stops_def)
    from "3.hyps"(1) [OF True c refl pw e1 inr1 st2] obtain q2 where
      pwq: "parse_power q1 = Inr (r, q2)" and e2: "extends rest p2 q2" and
      s2: "nodes_size q2 = nodes_size q1" by blast
    from parse_success(2) [OF pw] have adv2: "advanced p1 p2" by simp
    from in_range_advanced [OF inr1 adv2] adv2 lt1
    have lt2: "curr_node p2 < curr_tok p2" and le2: "curr_tok p2 \<le> length (token_buff (tokens p2))"
      by (auto simp: in_range_def advanced_def)
    then have "curr_node p2 < length (token_buff (tokens p2))" by simp
    from create_binary_node_extends [OF cb e2 this] obtain q3 where
      cbq: "create_binary_node q2 op l r = Inr (nd, q3)" and e3: "extends rest p3 q3" and
      s3: "nodes_size q3 = nodes_size q2" by blast
    from create_binary_node_advanced [OF cb] lt2 le2 have inr3: "in_range p3"
      by (simp add: in_range_def)
    from "3.hyps"(2) [OF True c refl pw refl cb refl lp e3 inr3 st] obtain q' where
      "parse_term_loop q3 nd = Inr (n, q')" "extends rest p' q'" "nodes_size q' = nodes_size q3"
      by blast
    with mq cq pwq cbq s1 s2 s3 show ?thesis
      by (simp add: parse_term_loop.simps [of q l])
  qed
next
  case (4 p)
  note ext = \<open>extends rest p q\<close> and inr = \<open>in_range p\<close> and st = \<open>stops rest p'\<close>
  note eq = "4.prems"(1) [unfolded parse_term.simps [of p]]
  from eq obtain l p1 where pw: "parse_power p = Inr (l, p1)" and
    lp: "parse_term_loop p1 l = Inr (n, p')"
    by (auto split: sum.splits prod.splits)
  from parse_success(3) [OF lp] have "advanced p1 p'" by simp
  from stops_back [OF st this] have st1: "stops rest p1" .
  from "4.hyps"(1) [OF pw ext inr st1] obtain q1 where
    pwq: "parse_power q = Inr (l, q1)" and e1: "extends rest p1 q1" and
    s1: "nodes_size q1 = nodes_size q" by blast
  from parse_success(2) [OF pw] inr have inr1: "in_range p1"
    by (auto intro: in_range_advanced)
  from "4.hyps"(2) [OF pw refl lp e1 inr1 st] obtain q' where
    "parse_term_loop q1 l = Inr (n, q')" "extends rest p' q'" "nodes_size q' = nodes_size q1"
    by blast
  with pwq s1 show ?case
    by (simp add: parse_term.simps [of q])
next
  case (5 p l)
  note ext = \<open>extends rest p q\<close> and inr = \<open>in_range p\<close> and st = \<open>stops rest p'\<close>
  note eq = "5.prems"(1) [unfolded parse_expression_loop.simps [of p l]]
  show ?case
  proof (cases "match p TOK_ADD \<or> match p TOK_SUB")
    case False
    with eq have np: "n = l" "p' = p" by simp_all
    from match_extends [OF ext inr, of TOK_ADD] match_extends [OF ext inr, of TOK_SUB]
      st np False
    have "\<not> (match q TOK_ADD \<or> match q TOK_SUB)"
      by (simp add: continues_def)
    with ext np show ?thesis
      by (simp add: parse_expression_loop.simps [of q l])
  next
    case True
    with eq obtain op p1 r p2 nd p3 where
      c: "consume p = Inr (op, p1)" and pw: "parse_term p1 = Inr (r, p2)" and
      cb: "create_binary_node p2 op l r = Inr (nd, p3)" and
      lp: "parse_expression_loop p3 nd = Inr (n, p')"
      by (auto split: sum.splits prod.splits)
    from consume_advanced [OF c] have lt: "curr_tok p < length (token_buff (tokens p))" by simp
    from True match_extends_less [OF ext lt]
    have mq: "match q TOK_ADD \<or> match q TOK_SUB" by simp
    from consume_extends [OF c ext inr] obtain q1 where
      cq: "consume q = Inr (op, q1)" and e1: "extends rest p1 q1" and
      s1: "nodes_size q1 = nodes_size q" by blast
    from consume_advanced [OF c] inr have inr1: "in_range p1" and
      lt1: "curr_node p1 < curr_tok p1"
      by (auto simp: in_range_def)
    from parse_success(5) [OF lp] have adv': "advanced p3 p'" by simp
    from stops_back [OF st adv'] create_binary_node_advanced [OF cb] have st2: "stops rest p2"
      by (simp add: stops_def)
    from "5.hyps"(1) [OF True c refl pw e1 inr1 st2] obtain q2 where
      pwq: "parse_term q1 = Inr (r, q2)" and e2: "extends rest p2 q2" and
      s2: "nodes_size q2 = nodes_size q1" by blast
    from parse_success(4) [OF pw] have adv2: "advanced p1 p2" by simp
    from in_range_advanced [OF inr1 adv2] adv2 lt1
    have lt2: "curr_node p2 < curr_tok p2" and le2: "curr_tok p2 \<le> length (token_buff (tokens p2))"
      by (auto simp: in_range_def advanced_def)
    then have "curr_node p2 < length (token_buff (tokens p2))" by simp
    from create_binary_node_extends [OF cb e2 this] obtain q3 where
      cbq: "create_binary_node q2 op l r = Inr (nd, q3)" and e3: "extends rest p3 q3" and
      s3: "nodes_size q3 = nodes_size q2" by blast
    from create_binary_node_advanced [OF cb] lt2 le2 have inr3: "in_range p3"
      by (simp add: in_range_def)
    from "5.hyps"(2) [OF True c refl pw refl cb refl lp e3 inr3 st] obtain q' where
      "parse_expression_loop q3 nd = Inr (n, q')" "extends rest p' q'"
      "nodes_size q' = nodes_size q3"
      by blast
    with mq cq pwq cbq s1 s2 s3 show ?thesis
      by (simp add: parse_expression_loop.simps [of q l])
  qed
next
  case (6 p)
  note ext = \<open>extends rest p q\<close> and inr = \<open>in_range p\<close> and st = \<open>stops rest p'\<close>
  note eq = "6.prems"(1) [unfolded parse_expression.simps [of p]]
  from eq obtain l p1 where pw: "parse_term p = Inr (l, p1)" and
    lp: "parse_expression_loop p1 l = Inr (n, p')"
    by (auto split: sum.splits prod.splits)
  from parse_success(5) [OF lp] have "advanced p1 p'" by simp
  from stops_back [OF st this] have st1: "stops rest p1" .
  from "6.hyps"(1) [OF pw ext inr st1] obtain q1 where
    pwq: "parse_term q = Inr (l, q1)" and e1: "extends rest p1 q1" and
    s1: "nodes_size q1 = nodes_size q" by blast
  from parse_success(4) [OF pw] inr have inr1: "in_range p1"
    by (auto intro: in_range_advanced)
  from "6.hyps"(2) [OF pw refl lp e1 inr1 st] obtain q' where
    "parse_expression_loop q1 l = Inr (n, q')" "extends rest p' q'"
    "nodes_size q' = nodes_size q1"
    by blast
  with pwq s1 show ?case
    by (simp add: parse_expression.simps [of q])
qed

text \<open>The same for \<^verbatim>\<open>parse_statement\<close> and \<^verbatim>\<open>parse\<close>, and what the root of a parsed statement is.\<close>

lemma parse_statement_success:
  assumes "parse_statement p = Inr (ast, p')" and "curr_tok p = 0"
  shows "(type (token ast) = TOK_ASSING \<longleftrightarrow>
            2 \<le> length (token_buff (tokens p)) \<and> type (token_buff (tokens p) ! 0) = TOK_VAR \<and>
            type (token_buff (tokens p) ! 1) = TOK_ASSING) \<and>
         (\<forall>c. left ast = Some c \<or> right ast = Some c \<longrightarrow> \<not> has_assign c)"
proof (cases "(case peek p of None \<Rightarrow> False | Some t \<Rightarrow> type t = TOK_VAR) \<and>
         (case peek_next p of None \<Rightarrow> False | Some t \<Rightarrow> type t = TOK_ASSING)")
  case True
  with assms(1) obtain tok p1 var p2 op p3 r p4 where
    c1: "consume p = Inr (tok, p1)" and cl: "create_leaf_node p1 tok = Inr (var, p2)" and
    c2: "consume p2 = Inr (op, p3)" and e: "parse_expression p3 = Inr (r, p4)" and
    cb: "create_binary_node p4 op var r = Inr (ast, p')"
    by (auto simp: parse_statement_def split: sum.splits prod.splits)
  from True assms(2) have look: "2 \<le> length (token_buff (tokens p))"
    "type (token_buff (tokens p) ! 0) = TOK_VAR" "type (token_buff (tokens p) ! 1) = TOK_ASSING"
    by (auto simp: peek_def peek_next_def split: if_splits)
  from c1 cl c2 assms(2) look have "type tok = TOK_VAR" "type op = TOK_ASSING"
    by (auto simp: parse_step_iffs)
  with cl cb parse_success(6) [OF e] look show ?thesis
    by (auto simp: parse_step_iffs)
next
  case False
  with assms(1) have e: "parse_expression p = Inr (ast, p')"
    by (simp add: parse_statement_def)
  from parse_success(6) [OF e] have na: "\<not> has_assign ast" by simp
  then have "type (token ast) \<noteq> TOK_ASSING"
    "\<forall>c. left ast = Some c \<or> right ast = Some c \<longrightarrow> \<not> has_assign c"
    by (cases ast; auto)+
  moreover from False assms(2)
  have "\<not> (2 \<le> length (token_buff (tokens p)) \<and> type (token_buff (tokens p) ! 0) = TOK_VAR \<and>
            type (token_buff (tokens p) ! 1) = TOK_ASSING)"
    by (auto simp: peek_def peek_next_def split: if_splits)
  ultimately show ?thesis by blast
qed

lemma parse_success_root:
  assumes "parse parser = Inr (ast, p')"
  shows "(type (token ast) = TOK_ASSING \<longleftrightarrow>
            2 \<le> length (token_buff (tokens parser)) \<and>
            type (token_buff (tokens parser) ! 0) = TOK_VAR \<and>
            type (token_buff (tokens parser) ! 1) = TOK_ASSING) \<and>
         (\<forall>c. left ast = Some c \<or> right ast = Some c \<longrightarrow> \<not> has_assign c)"
proof -
  define p1 where "p1 = (if nodes_size parser < length (token_buff (tokens parser)) + 1
     then parser\<lparr>curr_node := 0, curr_tok := 0, nodes_size := buff_size (tokens parser)\<rparr>
     else parser\<lparr>curr_node := 0, curr_tok := 0\<rparr>)"
  from assms have "parse_statement p1 = Inr (ast, p')"
    by (simp add: parse_def p1_def Let_def split: if_splits)
  from parse_statement_success [OF this] show ?thesis
    by (simp add: p1_def split: if_splits)
qed

lemma parse_expression_at_assign:
  assumes "peek p = Some t" and "type t = TOK_ASSING"
  shows "parse_expression p = Inl (UnexpectedToken TOK_ASSING)"
  using assms
  by (simp add: parse_expression.simps [of p] parse_term.simps [of p] parse_power.simps [of p]
      parse_primary.simps [of p])

lemma parse_statement_extends:
  assumes "parse_statement p = Inr (ast, p')" and "extends rest p q"
    and "curr_tok p = 0" and "curr_node p = 0" and "stops rest p'"
    and "\<not> (length (token_buff (tokens p)) = 1 \<and> type (hd (token_buff (tokens p))) = TOK_VAR \<and>
            rest \<noteq> [] \<and> type (hd rest) = TOK_ASSING)"
  shows "\<exists>q'. parse_statement q = Inr (ast, q') \<and> extends rest p' q'"
proof -
  from assms(3,4) have inr: "in_range p" by (simp add: in_range_def)
  show ?thesis
  proof (cases "(case peek p of None \<Rightarrow> False | Some t \<Rightarrow> type t = TOK_VAR) \<and>
         (case peek_next p of None \<Rightarrow> False | Some t \<Rightarrow> type t = TOK_ASSING)")
    case True
    with assms(1) obtain tok p1 var p2 op p3 r p4 where
      c1: "consume p = Inr (tok, p1)" and cl: "create_leaf_node p1 tok = Inr (var, p2)" and
      c2: "consume p2 = Inr (op, p3)" and e: "parse_expression p3 = Inr (r, p4)" and
      cb: "create_binary_node p4 op var r = Inr (ast, p')"
      by (auto simp: parse_statement_def split: sum.splits prod.splits)
    from True assms(2,3) have condq:
      "(case peek q of None \<Rightarrow> False | Some t \<Rightarrow> type t = TOK_VAR) \<and>
       (case peek_next q of None \<Rightarrow> False | Some t \<Rightarrow> type t = TOK_ASSING)"
      by (auto simp: peek_def peek_next_def extends_def nth_append split: if_splits)
    from True assms(3) have len2: "2 \<le> length (token_buff (tokens p))"
      by (auto simp: peek_next_def split: if_splits)
    from consume_extends [OF c1 assms(2) inr] obtain q1 where
      cq1: "consume q = Inr (tok, q1)" and e1: "extends rest p1 q1" by blast
    from consume_advanced [OF c1] assms(4) len2
    have "curr_node p1 < length (token_buff (tokens p1))" by auto
    from create_leaf_node_extends [OF cl e1 this] obtain q2 where
      clq: "create_leaf_node q1 tok = Inr (var, q2)" and e2: "extends rest p2 q2" by blast
    from consume_advanced [OF c1] create_leaf_node_advanced [OF cl] assms(3,4) len2
    have inr2: "in_range p2" by (simp add: in_range_def)
    from consume_extends [OF c2 e2 inr2] obtain q3 where
      cq2: "consume q2 = Inr (op, q3)" and e3: "extends rest p3 q3" by blast
    from consume_advanced [OF c1] create_leaf_node_advanced [OF cl] consume_advanced [OF c2]
      assms(3,4)
    have inr3: "in_range p3" and lt3: "curr_node p3 < curr_tok p3"
      by (auto simp: in_range_def)
    from create_binary_node_advanced [OF cb] assms(5) have st4: "stops rest p4"
      by (simp add: stops_def)
    from parse_extends(6) [OF e e3 inr3 st4] obtain q4 where
      eq4: "parse_expression q3 = Inr (r, q4)" and e4: "extends rest p4 q4" by blast
    from parse_success(6) [OF e] have adv4: "advanced p3 p4" by simp
    from in_range_advanced [OF inr3 adv4] adv4 lt3
    have "curr_node p4 < length (token_buff (tokens p4))"
      by (auto simp: in_range_def advanced_def)
    from create_binary_node_extends [OF cb e4 this] obtain q' where
      "create_binary_node q4 op var r = Inr (ast, q')" "extends rest p' q'" by blast
    with condq cq1 clq cq2 eq4 show ?thesis
      by (simp add: parse_statement_def)
  next
    case False
    with assms(1) have e: "parse_expression p = Inr (ast, p')"
      by (simp add: parse_statement_def)
    from parse_success(6) [OF e] assms(3) have "0 < curr_tok p'" "advanced p p'" by simp_all
    with assms(3) have ne: "token_buff (tokens p) \<noteq> []"
      using parse_expression.simps [of p] parse_term.simps [of p] parse_power.simps [of p]
        parse_primary.simps [of p] e
      by (auto simp: peek_def split: if_splits)
    from False assms(2,3,6) ne have condq:
      "\<not> ((case peek q of None \<Rightarrow> False | Some t \<Rightarrow> type t = TOK_VAR) \<and>
       (case peek_next q of None \<Rightarrow> False | Some t \<Rightarrow> type t = TOK_ASSING))"
      by (cases "token_buff (tokens p)"; cases rest)
         (auto simp: peek_def peek_next_def extends_def nth_append nth_Cons' split: if_splits)
    from parse_extends(6) [OF e assms(2) inr assms(5)] obtain q' where
      "parse_expression q = Inr (ast, q')" "extends rest p' q'" by blast
    with condq show ?thesis
      by (auto simp: parse_statement_def)
  qed
qed

lemma parse_extends_top:
  assumes "parse (P\<lparr>tokens := \<lparr>token_buff = pre, buff_size = bs\<rparr>\<rparr>) = Inr (ast, P1)"
    and "length (pre @ rest) \<le> bs'"
    and "curr_tok P1 < length pre \<or> rest = [] \<or> \<not> continues (type (hd rest))"
    and "\<not> (length pre = 1 \<and> type (hd pre) = TOK_VAR \<and> rest \<noteq> [] \<and> type (hd rest) = TOK_ASSING)"
  shows "\<exists>P2. parse (P\<lparr>tokens := \<lparr>token_buff = pre @ rest, buff_size = bs'\<rparr>\<rparr>) = Inr (ast, P2) \<and>
           curr_tok P2 = curr_tok P1 \<and> curr_tok P2 \<le> length pre"
proof -
  define p where "p = (if nodes_size P < length pre + 1
     then P\<lparr>tokens := \<lparr>token_buff = pre, buff_size = bs\<rparr>, curr_node := 0, curr_tok := 0,
            nodes_size := bs\<rparr>
     else P\<lparr>tokens := \<lparr>token_buff = pre, buff_size = bs\<rparr>, curr_node := 0, curr_tok := 0\<rparr>)"
  define q where "q = (if nodes_size P < length (pre @ rest) + 1
     then P\<lparr>tokens := \<lparr>token_buff = pre @ rest, buff_size = bs'\<rparr>, curr_node := 0, curr_tok := 0,
            nodes_size := bs'\<rparr>
     else P\<lparr>tokens := \<lparr>token_buff = pre @ rest, buff_size = bs'\<rparr>, curr_node := 0,
            curr_tok := 0\<rparr>)"
  from assms(1) have ps: "parse_statement p = Inr (ast, P1)"
    by (simp add: parse_def p_def Let_def split: if_splits)
  have pq: "parse (P\<lparr>tokens := \<lparr>token_buff = pre @ rest, buff_size = bs'\<rparr>\<rparr>) = parse_statement q"
    by (simp add: parse_def q_def Let_def)
  have tp: "token_buff (tokens p) = pre" and cp: "curr_tok p = 0" "curr_node p = 0"
    by (simp_all add: p_def)
  from assms(2) have ext: "extends rest p q"
    by (auto simp: extends_def p_def q_def)
  have adv: "advanced p P1"
  proof (cases "(case peek p of None \<Rightarrow> False | Some t \<Rightarrow> type t = TOK_VAR) \<and>
         (case peek_next p of None \<Rightarrow> False | Some t \<Rightarrow> type t = TOK_ASSING)")
    case True
    with ps obtain tok p1 var p2 op p3 r p4 where
      c1: "consume p = Inr (tok, p1)" and cl: "create_leaf_node p1 tok = Inr (var, p2)" and
      c2: "consume p2 = Inr (op, p3)" and e: "parse_expression p3 = Inr (r, p4)" and
      cb: "create_binary_node p4 op var r = Inr (ast, P1)"
      by (auto simp: parse_statement_def split: sum.splits prod.splits)
    from parse_success(6) [OF e] consume_advanced [OF c1] create_leaf_node_advanced [OF cl]
      consume_advanced [OF c2] create_binary_node_advanced [OF cb]
    show ?thesis
      by (auto simp: advanced_def)
  next
    case False
    with ps have "parse_expression p = Inr (ast, P1)"
      by (simp add: parse_statement_def)
    from parse_success(6) [OF this] show ?thesis by simp
  qed
  with tp cp have le: "curr_tok P1 \<le> length pre" and tP1: "token_buff (tokens P1) = pre"
    by (auto simp: advanced_def)
  from assms(3) tP1 have st: "stops rest P1"
    by (simp add: stops_def)
  from parse_statement_extends [OF ps ext cp st] assms(4) tp obtain q' where
    "parse_statement q = Inr (ast, q')" "extends rest P1 q'" by auto
  with pq le show ?thesis
    by (auto simp: extends_def)
qed

section \<open>Properties of the symbol table\<close>

text \<open>
  The symbols of a table, bucket by bucket, and the invariant that the operations keep on
  a table that was never cleared: the bucket array has \<open>capacity\<close> heads, none dangles, each
  symbol is in the bucket of its hash, no two symbols have the same name and length, and
  \<open>count\<close> is the number of symbols.
\<close>

fun chain_of :: "bucket \<Rightarrow> Symbol list" where
  "chain_of (Chain ch) = ch"
| "chain_of Dangling = []"

definition symbols :: "SymbolTable \<Rightarrow> Symbol list" where
  "symbols t = concat (map chain_of (buckets t))"

definition key :: "Symbol \<Rightarrow> string \<times> nat" where
  "key s = (name s, sym_len s)"

definition placed :: "nat \<Rightarrow> Symbol list list \<Rightarrow> bool" where
  "placed cap chs \<longleftrightarrow>
     (\<forall>i < length chs. \<forall>s \<in> set (chs ! i). bucket_index (name s) (sym_len s) cap = i)"

definition valid :: "SymbolTable \<Rightarrow> bool" where
  "valid t \<longleftrightarrow>
     0 < capacity t \<and> length (buckets t) = capacity t \<and> Dangling \<notin> set (buckets t) \<and>
     placed (capacity t) (map chain_of (buckets t)) \<and>
     distinct (map key (symbols t)) \<and> count t = length (symbols t)"

text \<open>A sequence of assignments, each made as the evaluator makes it: the name with its length.\<close>

fun insert_all :: "SymbolTable \<Rightarrow> (string \<times> mpfr) list \<Rightarrow> SymbolTable option" where
  "insert_all t [] = Some t"
| "insert_all t ((nm, v) # rest) =
     (case symbol_table_insert t nm v (length nm) of
        None \<Rightarrow> None
      | Some t' \<Rightarrow> insert_all t' rest)"

text \<open>Putting a symbol at the head of a bucket, as the rehash and the insertion do.\<close>

lemma bucket_index_less: "0 < cap \<Longrightarrow> bucket_index nm l cap < cap"
  by (simp add: bucket_index_def)

lemma concat_update_cons:
  "i < length xs \<Longrightarrow>
     set (concat (xs[i := s # xs ! i])) = insert s (set (concat xs)) \<and>
     length (concat (xs[i := s # xs ! i])) = Suc (length (concat xs))"
proof (induction xs arbitrary: i)
  case Nil
  then show ?case by simp
next
  case (Cons x xs)
  then show ?case by (cases i) auto
qed

lemma placed_update:
  "placed cap xs \<Longrightarrow> i < length xs \<Longrightarrow> bucket_index (name s) (sym_len s) cap = i \<Longrightarrow>
     placed cap (xs[i := s # xs ! i])"
  by (auto simp: placed_def nth_list_update)

text \<open>The rehash keeps every symbol, once, and puts it into the bucket of its hash.\<close>

lemma rehash_chain_props:
  assumes "0 < cap" and "length nb = cap"
  shows "length (rehash_chain cap ch nb) = cap \<and>
         set (concat (rehash_chain cap ch nb)) = set ch \<union> set (concat nb) \<and>
         length (concat (rehash_chain cap ch nb)) = length ch + length (concat nb) \<and>
         (placed cap nb \<longrightarrow> placed cap (rehash_chain cap ch nb))"
  using assms(2)
proof (induction ch arbitrary: nb)
  case Nil
  then show ?case by simp
next
  case (Cons s ss)
  let ?i = "bucket_index (name s) (sym_len s) cap"
  let ?nb = "nb[?i := s # nb ! ?i]"
  have i: "?i < length nb"
    using Cons.prems assms(1) by (simp add: bucket_index_less)
  have len: "length ?nb = cap" using Cons.prems by simp
  note IH = Cons.IH [OF len]
  note upd = concat_update_cons [OF i, of s]
  have pl: "placed cap nb \<Longrightarrow> placed cap ?nb"
    using placed_update [OF _ i] by simp
  show ?case
    using IH upd pl by auto
qed

lemma rehash_buckets_props:
  "0 < cap \<Longrightarrow> length nb = cap \<Longrightarrow> Dangling \<notin> set bs \<Longrightarrow>
         \<exists>nb'. rehash_buckets cap bs nb = Some nb' \<and> length nb' = cap \<and>
           set (concat nb') = set (concat (map chain_of bs)) \<union> set (concat nb) \<and>
           length (concat nb') = length (concat (map chain_of bs)) + length (concat nb) \<and>
           (placed cap nb \<longrightarrow> placed cap nb')"
proof (induction cap bs nb rule: rehash_buckets.induct)
  case (1 new_capacity new_buckets)
  then show ?case by simp
next
  case (2 new_capacity bs new_buckets)
  then show ?case by simp
next
  case (3 new_capacity ch bs new_buckets)
  note ch = rehash_chain_props [OF "3.prems"(1,2), of ch]
  from ch have len: "length (rehash_chain new_capacity ch new_buckets) = new_capacity"
    by simp
  from "3.prems"(3) have nd: "Dangling \<notin> set bs" by simp
  from "3.IH" [OF "3.prems"(1) len nd] obtain nb' where
    nb': "rehash_buckets new_capacity bs (rehash_chain new_capacity ch new_buckets) = Some nb'"
      "length nb' = new_capacity"
      "set (concat nb') = set (concat (map chain_of bs)) \<union>
         set (concat (rehash_chain new_capacity ch new_buckets))"
      "length (concat nb') = length (concat (map chain_of bs)) +
         length (concat (rehash_chain new_capacity ch new_buckets))"
      "placed new_capacity (rehash_chain new_capacity ch new_buckets) \<longrightarrow>
         placed new_capacity nb'"
    by blast
  show ?case
    using nb' ch by auto
qed

lemma distinct_key_transfer:
  assumes "distinct (map key xs)" and "set ys = set xs" and "length ys = length xs"
  shows "distinct (map key ys)"
proof -
  have "card (set (map key ys)) = card (set (map key xs))"
    using assms(2) by simp
  also have "\<dots> = length (map key xs)"
    using assms(1) by (rule distinct_card)
  also have "\<dots> = length (map key ys)"
    using assms(3) by simp
  finally show ?thesis by (rule card_distinct)
qed

lemma placed_replicate: "placed cap (replicate n [])"
  by (simp add: placed_def)

lemma symbol_table_resize_valid:
  assumes "valid t" and "2 * capacity t < 65536"
  shows "\<exists>t'. symbol_table_resize t (2 * capacity t) = Some t' \<and> valid t' \<and>
           capacity t' = 2 * capacity t \<and> count t' = count t \<and>
           set (symbols t') = set (symbols t)"
proof -
  from assms(1) have cap: "0 < 2 * capacity t" and len: "length (buckets t) = capacity t"
    and nd: "Dangling \<notin> set (buckets t)" and dist: "distinct (map key (symbols t))"
    and cnt: "count t = length (symbols t)"
    by (simp_all add: valid_def)
  from rehash_buckets_props [OF cap, of "replicate (2 * capacity t) []" "buckets t"] nd len
  obtain nb' where
    nb': "rehash_buckets (2 * capacity t) (buckets t) (replicate (2 * capacity t) []) = Some nb'"
      "length nb' = 2 * capacity t"
      "set (concat nb') = set (symbols t)"
      "length (concat nb') = length (symbols t)"
      "placed (2 * capacity t) nb'"
    by (auto simp: symbols_def placed_replicate)
  let ?t' = "t\<lparr>buckets := map Chain nb', capacity := 2 * capacity t\<rparr>"
  have co: "chain_of \<circ> Chain = id"
    by (simp add: fun_eq_iff)
  have r: "symbol_table_resize t (2 * capacity t) = Some ?t'"
    using nb'(1) len assms(2) by (simp add: symbol_table_resize_def)
  have s: "symbols ?t' = concat nb'"
    by (simp add: symbols_def co)
  have d: "distinct (map key (concat nb'))"
    using distinct_key_transfer [OF dist nb'(3) nb'(4)] .
  have v: "valid ?t'"
    using cap nb' assms(2) cnt d by (auto simp: valid_def s co)
  show ?thesis
    using r v assms(2) s nb'(3) by auto
qed

text \<open>Inserting a name that the table does not hold.\<close>

lemma chain_update_None:
  "\<forall>s \<in> set ch. \<not> sym_match nm l s \<Longrightarrow> chain_update nm l v ch = None"
  by (induction ch) auto

lemma symbols_nth:
  "i < length (buckets t) \<Longrightarrow> set (chain_of (buckets t ! i)) \<subseteq> set (symbols t)"
proof
  fix s
  assume "i < length (buckets t)" and "s \<in> set (chain_of (buckets t ! i))"
  then have "buckets t ! i \<in> set (buckets t)" "s \<in> set (chain_of (buckets t ! i))"
    by simp_all
  then show "s \<in> set (symbols t)"
    unfolding symbols_def by auto
qed

lemma insert_fresh_no_resize:
  assumes "valid t" and "count t < 65535" and "(nm, l) \<notin> key ` set (symbols t)"
  shows "\<exists>t'. (if capacity t = 0 \<or> length (buckets t) \<le> bucket_index nm l (capacity t) then None
          else (case buckets t ! bucket_index nm l (capacity t) of
                  Dangling \<Rightarrow> None
                | Chain ch \<Rightarrow>
                    (case chain_update nm l v ch of
                       Some (old_value, ch') \<Rightarrow>
                         if sprintf_overruns old_value \<or> sprintf_overruns v then None
                         else Some (t\<lparr>buckets := (buckets t)
                                        [bucket_index nm l (capacity t) := Chain ch']\<rparr>)
                     | None \<Rightarrow>
                         Some (t\<lparr>buckets := (buckets t)
                                   [bucket_index nm l (capacity t) :=
                                      Chain (\<lparr>num = mpfr_set v, name = nm, sym_len = l\<rparr> # ch)],
                                 count := (count t + 1) mod 65536\<rparr>)))) = Some t' \<and>
           valid t' \<and> count t' = count t + 1 \<and> capacity t' = capacity t \<and>
           set (symbols t') = insert \<lparr>num = mpfr_set v, name = nm, sym_len = l\<rparr> (set (symbols t))"
proof -
  let ?i = "bucket_index nm l (capacity t)"
  let ?new = "\<lparr>num = mpfr_set v, name = nm, sym_len = l\<rparr>"
  from assms(1) have cap: "0 < capacity t" and len: "length (buckets t) = capacity t"
    and nd: "Dangling \<notin> set (buckets t)"
    and pl: "placed (capacity t) (map chain_of (buckets t))"
    and dist: "distinct (map key (symbols t))"
    and cnt: "count t = length (symbols t)"
    by (simp_all add: valid_def)
  have i: "?i < length (buckets t)"
    using cap len by (simp add: bucket_index_less)
  then have "buckets t ! ?i \<in> set (buckets t)" by simp
  with nd obtain ch where ch: "buckets t ! ?i = Chain ch"
    by (cases "buckets t ! ?i") auto
  have sub: "set ch \<subseteq> set (symbols t)"
    using symbols_nth [OF i] ch by simp
  have "\<not> sym_match nm l s" if "s \<in> set ch" for s
  proof
    assume "sym_match nm l s"
    then have "key s = (nm, l)" by (simp add: sym_match_def key_def)
    moreover have "s \<in> set (symbols t)" using that sub by auto
    ultimately have "(nm, l) \<in> key ` set (symbols t)" by (metis imageI)
    with assms(3) show False by simp
  qed
  then have "\<forall>s \<in> set ch. \<not> sym_match nm l s" by blast
  then have cu: "chain_update nm l v ch = None"
    by (rule chain_update_None)
  let ?t' = "t\<lparr>buckets := (buckets t)[?i := Chain (?new # ch)],
               count := (count t + 1) mod 65536\<rparr>"
  have mc: "map chain_of ((buckets t)[?i := Chain (?new # ch)]) =
            (map chain_of (buckets t))[?i := ?new # map chain_of (buckets t) ! ?i]"
    using i ch by (simp add: map_update)
  have i': "?i < length (map chain_of (buckets t))" using i by simp
  note upd = concat_update_cons [OF i', of ?new]
  have s_set: "set (symbols ?t') = insert ?new (set (symbols t))"
    using upd by (simp add: symbols_def mc)
  have s_len: "length (symbols ?t') = Suc (length (symbols t))"
    using upd by (simp add: symbols_def mc)
  have pl': "placed (capacity t) (map chain_of ((buckets t)[?i := Chain (?new # ch)]))"
    unfolding mc by (rule placed_update [OF pl i']) simp
  have "set (symbols ?t') = set (?new # symbols t)" "length (symbols ?t') = length (?new # symbols t)"
    using s_set s_len by simp_all
  moreover have "distinct (map key (?new # symbols t))"
    using dist assms(3) by (simp add: key_def)
  ultimately have d': "distinct (map key (symbols ?t'))"
    using distinct_key_transfer by blast
  have nd': "Dangling \<notin> set ((buckets t)[?i := Chain (?new # ch)])"
    using nd set_update_subset_insert [of "buckets t" ?i "Chain (?new # ch)"] by auto
  have v: "valid ?t'"
    using cap len nd' pl' d' s_len cnt assms(2) by (simp add: valid_def)
  show ?thesis
    using i ch cu cap v s_set assms(2) by (intro exI [of _ ?t']) simp
qed

lemma symbol_table_insert_fresh:
  assumes "valid t" and "2 * capacity t < 65536" and "count t < 65535"
    and "(nm, l) \<notin> key ` set (symbols t)"
  shows "\<exists>t'. symbol_table_insert t nm v l = Some t' \<and> valid t' \<and> count t' = count t + 1 \<and>
           capacity t' = (if 5 * count t > 3 * capacity t then 2 * capacity t else capacity t) \<and>
           set (symbols t') = insert \<lparr>num = mpfr_set v, name = nm, sym_len = l\<rparr> (set (symbols t))"
proof (cases "5 * count t > 3 * capacity t")
  case True
  from symbol_table_resize_valid [OF assms(1,2)] obtain tr where
    tr: "symbol_table_resize t (2 * capacity t) = Some tr" "valid tr"
      "capacity tr = 2 * capacity t" "count tr = count t" "set (symbols tr) = set (symbols t)"
    by blast
  have "count tr < 65535" "(nm, l) \<notin> key ` set (symbols tr)"
    using tr assms by simp_all
  from insert_fresh_no_resize [OF tr(2) this, of v] show ?thesis
    using True tr by (simp add: symbol_table_insert_def)
next
  case False
  from insert_fresh_no_resize [OF assms(1,3,4), of v] show ?thesis
    using False by (simp add: symbol_table_insert_def)
qed

text \<open>Every symbol of a valid table is found under its name, with its value.\<close>

lemma symbol_table_get_found:
  assumes "valid t" and "s \<in> set (symbols t)"
  shows "symbol_table_get t (name s) (sym_len s) = Found (num s)"
proof -
  let ?i = "bucket_index (name s) (sym_len s) (capacity t)"
  from assms(1) have cap: "0 < capacity t" and len: "length (buckets t) = capacity t"
    and nd: "Dangling \<notin> set (buckets t)"
    and pl: "placed (capacity t) (map chain_of (buckets t))"
    and dist: "distinct (map key (symbols t))"
    by (simp_all add: valid_def)
  from assms(2) obtain b where b: "b \<in> set (buckets t)" "s \<in> set (chain_of b)"
    by (auto simp: symbols_def)
  then obtain j where j: "j < length (buckets t)" "buckets t ! j = b"
    by (auto simp: in_set_conv_nth)
  with pl b have "?i = j" by (auto simp: placed_def)
  with j b nd obtain ch where ch: "buckets t ! ?i = Chain ch" "s \<in> set ch"
    by (cases b) auto
  have i: "?i < length (buckets t)" using \<open>?i = j\<close> j by simp
  have sub: "set ch \<subseteq> set (symbols t)"
    using symbols_nth [OF i] ch by simp
  have inj: "inj_on key (set (symbols t))"
    using dist by (simp add: distinct_map)
  have "sym_match (name s) (sym_len s) s" by (simp add: sym_match_def)
  with ch(2) obtain s' where s': "find (sym_match (name s) (sym_len s)) ch = Some s'"
    by (cases "find (sym_match (name s) (sym_len s)) ch") (auto simp: find_None_iff)
  then have "s' \<in> set ch" "sym_match (name s) (sym_len s) s'"
    by (auto simp: find_Some_iff)
  then have "s' \<in> set (symbols t)" "key s' = key s"
    using sub by (auto simp: sym_match_def key_def)
  with inj assms(2) have "s' = s" by (auto dest: inj_onD)
  then show ?thesis
    using cap i ch s' by (simp add: symbol_table_get_def)
qed

text \<open>
  Assignments to names that are new and distinct, starting from a table with fewer than
  155 symbols whose capacity is the one that the count calls for: 64 up to 39 symbols,
  128 up to 77, then 256.
\<close>

definition entry :: "string \<times> mpfr \<Rightarrow> Symbol" where
  "entry a = \<lparr>num = mpfr_set (snd a), name = fst a, sym_len = length (fst a)\<rparr>"

lemma insert_all_fresh:
  "valid t \<Longrightarrow> distinct (map fst as) \<Longrightarrow> fst ` set as \<inter> fst ` key ` set (symbols t) = {} \<Longrightarrow>
   count t + length as \<le> 154 \<Longrightarrow>
   capacity t = (if count t \<le> 39 then 64 else if count t \<le> 77 then 128 else 256) \<Longrightarrow>
   \<exists>t'. insert_all t as = Some t' \<and> valid t' \<and> count t' = count t + length as \<and>
     capacity t' = (if count t + length as \<le> 39 then 64
                    else if count t + length as \<le> 77 then 128 else 256) \<and>
     set (symbols t') = entry ` set as \<union> set (symbols t)"
proof (induction as arbitrary: t)
  case Nil
  then show ?case by simp
next
  case (Cons a as)
  obtain nm v where a: "a = (nm, v)" by (cases a)
  have ea: "\<lparr>num = mpfr_set v, name = nm, sym_len = length nm\<rparr> = entry a"
    by (simp add: entry_def a)
  have "nm \<notin> fst ` key ` set (symbols t)"
    using Cons.prems(3) a by auto
  then have fresh: "(nm, length nm) \<notin> key ` set (symbols t)"
  proof (rule contrapos_nn)
    assume "(nm, length nm) \<in> key ` set (symbols t)"
    then have "fst (nm, length nm) \<in> fst ` key ` set (symbols t)" by (rule imageI)
    then show "nm \<in> fst ` key ` set (symbols t)" by simp
  qed
  have cap: "capacity t = 64 \<or> capacity t = 128 \<or> capacity t = 256"
    using Cons.prems(5) by (simp split: if_splits)
  have cnt: "count t \<le> 153"
    using Cons.prems(4) by simp
  have c2: "2 * capacity t < 65536" "count t < 65535"
    using cap cnt by auto
  from symbol_table_insert_fresh [OF Cons.prems(1) c2 fresh, of v, unfolded ea] obtain t1 where
    t1: "symbol_table_insert t nm v (length nm) = Some t1" "valid t1" "count t1 = count t + 1"
      "capacity t1 = (if 5 * count t > 3 * capacity t then 2 * capacity t else capacity t)"
      "set (symbols t1) = insert (entry a) (set (symbols t))"
    by blast
  have d: "distinct (map fst as)" using Cons.prems(2) by simp
  have "nm \<notin> fst ` set as"
    using Cons.prems(2) a by simp
  moreover have "fst (key (entry a)) = nm"
    by (simp add: entry_def key_def a)
  moreover have "fst ` set as \<inter> fst ` key ` set (symbols t) = {}"
    using Cons.prems(3) by auto
  ultimately have f: "fst ` set as \<inter> fst ` key ` set (symbols t1) = {}"
    unfolding t1(5) by auto
  have n: "count t1 + length as \<le> 154" using Cons.prems(4) t1(3) by simp
  consider "count t \<le> 39" | "39 < count t" "count t \<le> 77" | "77 < count t"
    by linarith
  then have c1: "capacity t1 = (if count t \<le> 38 then 64 else if count t \<le> 76 then 128 else 256)"
  proof cases
    case 1
    then have "capacity t = 64" using Cons.prems(5) by simp
    then show ?thesis using t1(4) 1 by auto
  next
    case 2
    then have "capacity t = 128" using Cons.prems(5) by simp
    then show ?thesis using t1(4) 2 by auto
  next
    case 3
    then have "capacity t = 256" using Cons.prems(5) by simp
    then show ?thesis using t1(4) 3 cnt by auto
  qed
  have c: "capacity t1 = (if count t1 \<le> 39 then 64 else if count t1 \<le> 77 then 128 else 256)"
    unfolding c1 t1(3) by simp
  from Cons.IH [OF t1(2) d f n c] obtain t' where
    t': "insert_all t1 as = Some t'" "valid t'" "count t' = count t1 + length as"
    "capacity t' = (if count t1 + length as \<le> 39 then 64
                    else if count t1 + length as \<le> 77 then 128 else 256)"
    "set (symbols t') = entry ` set as \<union> set (symbols t1)"
    by blast
  have 1: "insert_all t (a # as) = Some t'"
    using t1(1) t'(1) by (simp add: a)
  have 2: "count t' = count t + length (a # as)"
    using t'(3) t1(3) by simp
  have 3: "capacity t' = (if count t + length (a # as) \<le> 39 then 64
                          else if count t + length (a # as) \<le> 77 then 128 else 256)"
    using t'(4) t1(3) by simp
  have 4: "set (symbols t') = entry ` set (a # as) \<union> set (symbols t)"
    unfolding t'(5) t1(5) by auto
  from 1 t'(2) 2 3 4 show ?case by blast
qed

lemma valid_symbol_table_create: "valid symbol_table_create"
  by (simp add: valid_def symbol_table_create_def SYMBOL_MAP_BASE_SIZE_def symbols_def
      placed_def)

lemma symbols_symbol_table_create: "symbols symbol_table_create = []"
  by (simp add: symbol_table_create_def symbols_def)

lemma insert_all_create:
  assumes "distinct (map fst as)" and "length as \<le> 154"
  shows "\<exists>t. insert_all symbol_table_create as = Some t \<and> count t = length as \<and>
           capacity t = (if length as \<le> 39 then 64 else if length as \<le> 77 then 128 else 256) \<and>
           (\<forall>a \<in> set as. symbol_table_get t (fst a) (length (fst a)) = Found (mpfr_set (snd a)))"
proof -
  have c0: "count symbol_table_create = 0" "capacity symbol_table_create = 64"
    by (simp_all add: symbol_table_create_def SYMBOL_MAP_BASE_SIZE_def)
  from insert_all_fresh [OF valid_symbol_table_create assms(1), simplified c0 symbols_symbol_table_create]
    assms(2)
  obtain t where t: "insert_all symbol_table_create as = Some t" "valid t"
    "count t = length as"
    "capacity t = (if length as \<le> 39 then 64 else if length as \<le> 77 then 128 else 256)"
    "set (symbols t) = entry ` set as"
    by auto
  have "symbol_table_get t (fst a) (length (fst a)) = Found (mpfr_set (snd a))"
    if "a \<in> set as" for a
    using symbol_table_get_found [OF t(2), of "entry a"] t(5) that by (simp add: entry_def)
  with t show ?thesis by blast
qed

text \<open>Forty assignments to distinct names.\<close>

definition forty :: "(string \<times> mpfr) list" where
  "forty =
     [(''a'', Regular 1), (''b'', Regular 1), (''c'', Regular 1), (''d'', Regular 1),
      (''e'', Regular 1), (''f'', Regular 1), (''g'', Regular 1), (''h'', Regular 1),
      (''i'', Regular 1), (''j'', Regular 1), (''k'', Regular 1), (''l'', Regular 1),
      (''m'', Regular 1), (''n'', Regular 1), (''o'', Regular 1), (''p'', Regular 1),
      (''q'', Regular 1), (''r'', Regular 1), (''s'', Regular 1), (''t'', Regular 1),
      (''u'', Regular 1), (''v'', Regular 1), (''w'', Regular 1), (''x'', Regular 1),
      (''y'', Regular 1), (''z'', Regular 1), (''A'', Regular 1), (''B'', Regular 1),
      (''C'', Regular 1), (''D'', Regular 1), (''E'', Regular 1), (''F'', Regular 1),
      (''G'', Regular 1), (''H'', Regular 1), (''I'', Regular 1), (''J'', Regular 1),
      (''K'', Regular 1), (''L'', Regular 1), (''M'', Regular 1), (''N'', Regular 1)]"

section \<open>Properties of the Number tokens\<close>

text \<open>A digit is none of the other characters that the tokenizer and MPFR look for.\<close>

lemma is_digit_other:
  "is_digit c \<Longrightarrow> c \<noteq> CHR ''.'' \<and> c \<noteq> CHR '','' \<and> c \<noteq> CHR ''-'' \<and> c \<noteq> CHR ''+'' \<and> \<not> is_space c"
  by (auto simp: is_digit_def is_space_def)

lemma not_is_digit_point: "\<not> is_digit CHR ''.''"
  by (simp add: is_digit_def)

text \<open>The digit run passes digits, and one period with the digits after it.\<close>

lemma scan_number_digits:
  "\<forall>c \<in> set ds. is_digit c \<Longrightarrow> scan_number b (ds @ rest) = length ds + scan_number b rest"
  by (induction ds) auto

lemma scan_number_point:
  "\<forall>c \<in> set ds. is_digit c \<Longrightarrow> scan_number False (CHR ''.'' # ds) = Suc (length ds)"
  using scan_number_digits [of ds True "[]"] by (simp add: not_is_digit_point)

text \<open>The value of the digits before and after the period.\<close>

lemma foldl_decimal:
  "foldl (\<lambda>a c. 10 * a + digit_value c) a ds =
     a * 10 ^ length ds + foldl (\<lambda>a c. 10 * a + digit_value c) 0 ds"
  by (induction ds rule: rev_induct) (simp_all add: algebra_simps)

lemma decimal_value_append:
  "decimal_value (ip @ fp) = decimal_value ip * 10 ^ length fp + decimal_value fp"
  unfolding decimal_value_def foldl_append
  by (subst foldl_decimal) simp

lemma decimal_fraction:
  "real (decimal_value (ip @ fp)) / 10 ^ length fp =
     real (decimal_value ip) + real (decimal_value fp) / 10 ^ length fp"
  by (simp add: decimal_value_append field_simps)

lemma scan_number_decimal:
  assumes "\<forall>c \<in> set ip. is_digit c" and "\<forall>c \<in> set fp. is_digit c"
    and "sep = [] \<and> fp = [] \<or> sep = ''.''"
  shows "scan_number False (ip @ sep @ fp) = length (ip @ sep @ fp)"
  using assms scan_number_digits [of ip False "sep @ fp"] scan_number_point [of fp]
  by auto

text \<open>
  A line that is digits, or digits, a period and digits, of at most 255 characters, is
  one Number token; MPFR reads it as the number it denotes.
\<close>

lemma tokenize_decimal:
  assumes "ip \<noteq> []" and "\<forall>c \<in> set ip. is_digit c" and "\<forall>c \<in> set fp. is_digit c"
    and "sep = [] \<and> fp = [] \<or> sep = ''.''"
    and "s = ip @ sep @ fp" and "length s \<le> 255"
  shows "tokenize token_buffer_create s =
           (True, \<lparr>token_buff = [tk TOK_NUM s (length s)], buff_size = 128\<rparr>)"
proof -
  obtain c cs where ip: "ip = c # cs" using assms(1) by (cases ip) auto
  have c: "is_digit c" "\<not> is_space c" using assms(2) ip is_digit_other by auto
  have cs: "\<forall>c \<in> set cs. is_digit c" using assms(2) ip by simp
  have sc: "scan_number False (cs @ sep @ fp) = length (cs @ sep @ fp)"
    using scan_number_decimal [OF cs assms(3,4)] .
  have s: "s = c # cs @ sep @ fp" using assms(5) ip by simp
  show ?thesis
    unfolding s tokenize_def
    using c sc assms(6) s
    by (simp add: token_buffer_create_def token_buffer_add_def TOKEN_LEXEME_LEN_LIMIT_def
        TOKEN_BUFFER_SIZE_def)
qed

lemma mpfr_set_str_decimal:
  assumes "ip \<noteq> []" and "\<forall>c \<in> set ip. is_digit c" and "\<forall>c \<in> set fp. is_digit c"
    and "sep = [] \<and> fp = [] \<or> sep = ''.''"
  shows "mpfr_set_str (ip @ sep @ fp) =
           Some (mk_val False (real (decimal_value ip) + real (decimal_value fp) / 10 ^ length fp))"
proof -
  have "is_digit (hd ip)" using assms(1,2) by simp
  then have c: "hd ip \<noteq> CHR ''-''" "hd ip \<noteq> CHR ''+''"
    using is_digit_other by auto
  have ipd: "\<And>x. x \<in> set ip \<Longrightarrow> is_digit x" using assms(2) by simp
  have tfp: "takeWhile is_digit fp = fp" "dropWhile is_digit fp = []"
    using assms(3) by simp_all
  from assms(4) show ?thesis
  proof
    assume e: "sep = [] \<and> fp = []"
    have tw: "takeWhile is_digit ip = ip" "dropWhile is_digit ip = []"
      using assms(2) by simp_all
    show ?thesis
      using e c assms(1) by (simp add: mpfr_set_str_def Let_def decimal_value_def tw)
  next
    assume e: "sep = ''.''"
    have t: "takeWhile is_digit (ip @ CHR ''.'' # fp) = ip"
      using takeWhile_append2 [of ip is_digit "CHR ''.'' # fp"] ipd
      by (simp add: not_is_digit_point)
    have d: "dropWhile is_digit (ip @ CHR ''.'' # fp) = CHR ''.'' # fp"
      using dropWhile_append2 [of ip is_digit "CHR ''.'' # fp"] ipd
      by (simp add: not_is_digit_point)
    have hd: "ip @ CHR ''.'' # fp \<noteq> []" "hd (ip @ CHR ''.'' # fp) = hd ip"
      using assms(1) by simp_all
    show ?thesis
      unfolding e mpfr_set_str_def Let_def
      using c assms(1) by (simp add: t d hd tfp decimal_fraction)
  qed
qed

text \<open>A natural number below \<open>2^256\<close> is stored as it is.\<close>

lemma mk_val_exact:
  assumes "n < 2 ^ 256"
  shows "val (mk_val False (real n)) = real n"
proof (cases "n = 0")
  case True
  then show ?thesis by (simp add: mk_val_def)
next
  case False
  have "int n < 2 ^ 256" using assms by (metis of_nat_less_iff of_nat_numeral of_nat_power)
  then have "\<bar>int n\<bar> < 2 ^ 256" by simp
  moreover have "int n \<noteq> 0" using False by simp
  ultimately have "mpfr_check_range (of_int (int n)) = Regular (of_int (int n))"
    by (rule mpfr_check_range_of_int [rotated])
  then show ?thesis
    using False by (simp add: mk_val_def)
qed

text \<open>
  With a period, or with no separator, a decimal string makes the round trip.  Let \<open>s\<close> be
  digits (at least one), or digits, a period and digits (possibly none after the period),
  of at most 254 characters.  Tokenizing \<open>s\<close> as a line yields exactly one Number token,
  of the length of \<open>s\<close>, whose adjusted lexeme is \<open>s\<close>; evaluating its leaf yields the
  number that \<open>s\<close> denotes, the value of the digits before the period plus that of the
  digits after it divided by the power of ten, as \<open>mk_val\<close> stores it.  For digits without
  a period that denote a number below \<open>2^256\<close> the stored value is that number.
\<close>

lemma number_with_period_round_trip:
  assumes "ip \<noteq> []" and "\<forall>c \<in> set ip. is_digit c" and "\<forall>c \<in> set fp. is_digit c"
    and "sep = [] \<and> fp = [] \<or> sep = ''.''"
    and "s = ip @ sep @ fp" and "length s \<le> 254" and "mpfr_count p < mpfr_size p"
  shows "tokenize token_buffer_create s =
           (True, \<lparr>token_buff = [tk TOK_NUM s (length s)], buff_size = 128\<rparr>) \<and>
         token_adjust_lexeme (tk TOK_NUM s (length s)) = Some s \<and>
         evaluate_node p (leaf (tk TOK_NUM s (length s))) =
           Some (Some (mk_val False
                   (real (decimal_value ip) + real (decimal_value fp) / 10 ^ length fp)),
                 p\<lparr>mpfr_count := mpfr_count p + 1\<rparr>) \<and>
         (fp = [] \<and> decimal_value ip < 2 ^ 256 \<longrightarrow>
            val (mk_val False (real (decimal_value ip) + real (decimal_value fp) / 10 ^ length fp)) =
              real (decimal_value ip))"
proof -
  have 1: "tokenize token_buffer_create s =
           (True, \<lparr>token_buff = [tk TOK_NUM s (length s)], buff_size = 128\<rparr>)"
    using tokenize_decimal [OF assms(1-5)] assms(6) by simp
  have 2: "token_adjust_lexeme (tk TOK_NUM s (length s)) = Some s"
    using assms(6) by (simp add: token_adjust_lexeme_def TOKEN_LEXEME_LEN_LIMIT_def)
  have 3: "evaluate_node p (leaf (tk TOK_NUM s (length s))) =
           Some (Some (mk_val False
                   (real (decimal_value ip) + real (decimal_value fp) / 10 ^ length fp)),
                 p\<lparr>mpfr_count := mpfr_count p + 1\<rparr>)"
    using 2 assms(7) mpfr_set_str_decimal [OF assms(1-4)] assms(5) by simp
  have 4: "val (mk_val False (real (decimal_value ip) + real (decimal_value fp) / 10 ^ length fp)) =
              real (decimal_value ip)" if "fp = []" "decimal_value ip < 2 ^ 256"
    using mk_val_exact [OF that(2)] that(1) by (simp add: decimal_value_def)
  from 1 2 3 4 show ?thesis by blast
qed

section \<open>Two more facts about the loop and the table\<close>

text \<open>
  A line that starts with \<open>-\<close> and is not a command is evaluated up to its first blank
  only: \<open>-3 + 4\<close> is \<open>-3\<close>, and \<open>4 - 3\<close>, which starts with a digit, is 1.
\<close>

lemma line_with_leading_minus_is_cut_at_first_blank:
  "map_option fst (run_line (parser_create token_buffer_create) ''-3 + 4'') =
     Some (Some (Regular (- 3))) \<and>
   map_option fst (run_line (parser_create token_buffer_create) ''4 - 3'') =
     Some (Some (Regular 1))"
proof -
  have "map_option fst (run_line (parser_create token_buffer_create) ''-3 + 4'') =
     Some (Some (Regular (- 3)))"
    by (simp add: run_defs)
  moreover have "map_option fst (run_line (parser_create token_buffer_create) ''4 - 3'') =
     Some (Some (Regular 1))"
    by (simp add: run_defs)
  ultimately show ?thesis by blast
qed

text \<open>
  Assigning to a name that the table holds writes the old and the new value as text
  first: a new value of 84 digits, \<open>10^83\<close>, does not fit the array.
\<close>

lemma update_with_84_digits_overruns:
  "map_option count (symbol_table_insert symbol_table_create ''a'' (Regular 1) 1) = Some 1 \<and>
   Option.bind (symbol_table_insert symbol_table_create ''a'' (Regular 1) 1)
     (\<lambda>table. symbol_table_insert table ''a'' (Regular (10 ^ 83)) 1) = None"
proof -
  have "map_option count (symbol_table_insert symbol_table_create ''a'' (Regular 1) 1) = Some 1"
    by (simp add: table_defs)
  moreover have "Option.bind (symbol_table_insert symbol_table_create ''a'' (Regular 1) 1)
     (\<lambda>table. symbol_table_insert table ''a'' (Regular (10 ^ 83)) 1) = None"
    by (simp add: table_defs)
  ultimately show ?thesis by blast
qed

section \<open>The claims\<close>

subsection \<open>C7: the power operator associates to the right\<close>

lemma tokenize_pow_line:
  "tokenize token_buffer_create ''2^3^2'' =
     (True, \<lparr>token_buff = [tk TOK_NUM ''2^3^2'' 1, tk TOK_POWER ''^'' 1, tk TOK_NUM ''3^2'' 1,
                             tk TOK_POWER ''^'' 1, tk TOK_NUM ''2'' 1],
             buff_size = 128\<rparr>)"
  by (simp add: tokenize_defs)

text \<open>
  C7.  The line \<open>2^3^2\<close> is tokenized into five tokens, parsed into the tree of
  \<open>2^(3^2)\<close> (the right operand of the root is the node of \<open>3^2\<close>), and evaluated to 512;
  the other grouping, \<open>(2^3)^2\<close>, would give 64.
\<close>

theorem power_right_associative:
  "fst (tokenize token_buffer_create ''2^3^2'') = True \<and>
   map_sum id fst (parse (parser_create (snd (tokenize token_buffer_create ''2^3^2'')))) =
     Inr (binary (tk TOK_POWER ''^'' 1) (leaf (tk TOK_NUM ''2^3^2'' 1))
            (binary (tk TOK_POWER ''^'' 1) (leaf (tk TOK_NUM ''3^2'' 1))
               (leaf (tk TOK_NUM ''2'' 1)))) \<and>
   map_option fst (run_line (parser_create token_buffer_create) ''2^3^2'') =
     Some (Some (Regular 512)) \<and>
   binary_result TOK_POWER (binary_result TOK_POWER (Regular 2) (Regular 3)) (Regular 2) =
     Regular 64"
proof -
  have "map_option fst (run_line (parser_create token_buffer_create) ''2^3^2'') =
          Some (Some (Regular 512))"
    unfolding run_line_def
    by (simp add: tokenize_pow_line [unfolded token_buffer_create_def TOKEN_BUFFER_SIZE_def]
          token_buffer_create_def
          TOKEN_BUFFER_SIZE_def parse_defs evaluate_defs mpfr_defs table_defs is_digit_def)
  then show ?thesis
    by (simp add: tokenize_pow_line parse_defs binary_result_def mpfr_pow_def)
qed

subsection \<open>C1: the Modulo node\<close>

text \<open>
  Both children of a binary node are evaluated and the result is \<open>binary_result\<close> of
  their values, whatever the operator.
\<close>

lemma evaluate_node_binary:
  assumes "mpfr_count p < mpfr_size p" and "is_binary (type tok)"
    and "evaluate_node (p\<lparr>mpfr_count := mpfr_count p + 1\<rparr>) lnode = Some (Some a, p1)"
    and "evaluate_node p1 rnode = Some (Some b, p2)"
  shows "evaluate_node p (ASTNode tok (Some lnode) (Some rnode)) =
           Some (Some (binary_result (type tok) a b), p2)"
  using assms by (auto simp: is_binary_def)

text \<open>
  C1.  With a right operand of zero the Modulo node yields NaN, as the claim has it.
  With any other right operand \<open>r\<close> it yields the integral part of \<open>r\<close>, whatever the
  left operand is: \<^verbatim>\<open>mpfr_modf\<close> splits one number into integral and fractional
  part, it is not the remainder \<^verbatim>\<open>mpfr_fmod\<close>.  So \<open>7 % 3\<close> is 3 and \<open>10 % 4\<close> is 4,
  where the remainders are 1 and 2.
\<close>

theorem modulo_yields_integral_part_of_right_operand:
  "binary_result TOK_MODULE l r = (if mpfr_zero_p r then NaN else mpfr_trunc r) \<and>
   map_option fst (run_line (parser_create token_buffer_create) ''7 % 3'') =
     Some (Some (Regular 3)) \<and>
   map_option fst (run_line (parser_create token_buffer_create) ''10 % 4'') =
     Some (Some (Regular 4)) \<and>
   map_option fst (run_line (parser_create token_buffer_create) ''7 % 0'') = Some (Some NaN)"
proof -
  have "binary_result TOK_MODULE l r = (if mpfr_zero_p r then NaN else mpfr_trunc r)"
    by (simp add: binary_result_def mpfr_modf_def)
  moreover have "map_option fst (run_line (parser_create token_buffer_create) ''7 % 3'') =
      Some (Some (Regular 3))"
    by (simp add: run_defs trunc_real_def)
  moreover have "map_option fst (run_line (parser_create token_buffer_create) ''10 % 4'') =
      Some (Some (Regular 4))"
    by (simp add: run_defs trunc_real_def)
  moreover have "map_option fst (run_line (parser_create token_buffer_create) ''7 % 0'') =
      Some (Some NaN)"
    by (simp add: run_defs)
  ultimately show ?thesis by blast
qed

subsection \<open>C3: NaN as a soft failure\<close>

lemma is_nan_mpfr_neg [simp]: "is_nan (mpfr_neg b) = is_nan b"
  by (cases b) simp_all

lemma is_nan_eq: "is_nan a \<longleftrightarrow> a = NaN"
  by (cases a) simp_all

lemma binary_result_nan:
  assumes "is_nan a \<or> is_nan b"
    and "ty = TOK_ADD \<or> ty = TOK_SUB \<or> ty = TOK_MULT \<or> ty = TOK_DIVIDE"
  shows "binary_result ty a b = NaN"
  using assms
  by (auto simp: binary_result_def mpfr_add_def mpfr_sub_def mpfr_mul_def mpfr_div_def is_nan_eq)

lemma binary_result_pow_nan:
  assumes "is_nan a \<or> is_nan b" and "\<not> mpfr_zero_p b" and "a \<noteq> Regular 1"
  shows "binary_result TOK_POWER a b = NaN"
  using assms by (auto simp: binary_result_def mpfr_pow_def)

text \<open>
  The claim as stated fails at the Power node: \<open>1/0\<close> is NaN, and \<open>(1/0)^0\<close> is 1,
  since \<^verbatim>\<open>mpfr_pow\<close> gives 1 for an exponent of zero whatever the base; in the same way
  \<open>1^(1/0)\<close> is 1.
\<close>

theorem nan_to_the_power_zero_is_one:
  "map_option fst (run_line (parser_create token_buffer_create) ''1/0'') = Some (Some NaN) \<and>
   map_option fst (run_line (parser_create token_buffer_create) ''(1/0)^0'') =
     Some (Some (Regular 1)) \<and>
   map_option fst (run_line (parser_create token_buffer_create) ''1^(1/0)'') =
     Some (Some (Regular 1))"
proof -
  have "map_option fst (run_line (parser_create token_buffer_create) ''1/0'') = Some (Some NaN)"
    by (simp add: run_defs)
  moreover have "map_option fst (run_line (parser_create token_buffer_create) ''(1/0)^0'') =
      Some (Some (Regular 1))"
    by (simp add: run_defs)
  moreover have "map_option fst (run_line (parser_create token_buffer_create) ''1^(1/0)'') =
      Some (Some (Regular 1))"
    by (simp add: run_defs)
  ultimately show ?thesis by blast
qed

text \<open>
  C3, amended.  The lines \<open>1/0\<close>, \<open>1%0\<close>, \<open>sqrt(-1)\<close> and \<open>1 + (1/0)\<close> are evaluated
  without failure, to NaN.  An Add, Sub, Multiply or Divide node one of whose operands
  is NaN yields NaN; so does a Power node, unless its exponent is a zero or its base is
  1.  (Nothing is said here of a Modulo node whose right operand is not zero.)
\<close>

theorem nan_soft_failures:
  "map_option fst (run_line (parser_create token_buffer_create) ''1/0'') = Some (Some NaN) \<and>
   map_option fst (run_line (parser_create token_buffer_create) ''1%0'') = Some (Some NaN) \<and>
   map_option fst (run_line (parser_create token_buffer_create) ''sqrt(-1)'') = Some (Some NaN) \<and>
   map_option fst (run_line (parser_create token_buffer_create) ''1 + (1/0)'') = Some (Some NaN) \<and>
   (mpfr_count p < mpfr_size p \<and>
    evaluate_node (p\<lparr>mpfr_count := mpfr_count p + 1\<rparr>) lnode = Some (Some a, p1) \<and>
    evaluate_node p1 rnode = Some (Some b, p2) \<and>
    (is_nan a \<or> is_nan b) \<and>
    (type tok = TOK_ADD \<or> type tok = TOK_SUB \<or> type tok = TOK_MULT \<or> type tok = TOK_DIVIDE \<or>
     type tok = TOK_POWER \<and> \<not> mpfr_zero_p b \<and> a \<noteq> Regular 1)
    \<longrightarrow> evaluate_node p (ASTNode tok (Some lnode) (Some rnode)) = Some (Some NaN, p2))"
proof -
  have "map_option fst (run_line (parser_create token_buffer_create) ''1/0'') = Some (Some NaN)"
    by (simp add: run_defs)
  moreover have "map_option fst (run_line (parser_create token_buffer_create) ''1%0'') =
      Some (Some NaN)"
    by (simp add: run_defs)
  moreover have "map_option fst (run_line (parser_create token_buffer_create) ''sqrt(-1)'') =
      Some (Some NaN)"
    by (simp add: run_defs)
  moreover have "map_option fst (run_line (parser_create token_buffer_create) ''1 + (1/0)'') =
      Some (Some NaN)"
    by (simp add: run_defs)
  moreover have "evaluate_node p (ASTNode tok (Some lnode) (Some rnode)) = Some (Some NaN, p2)"
    if h: "mpfr_count p < mpfr_size p"
      "evaluate_node (p\<lparr>mpfr_count := mpfr_count p + 1\<rparr>) lnode = Some (Some a, p1)"
      "evaluate_node p1 rnode = Some (Some b, p2)"
      "is_nan a \<or> is_nan b"
      "type tok = TOK_ADD \<or> type tok = TOK_SUB \<or> type tok = TOK_MULT \<or> type tok = TOK_DIVIDE \<or>
       type tok = TOK_POWER \<and> \<not> mpfr_zero_p b \<and> a \<noteq> Regular 1"
  proof -
    from h(5) have bin: "is_binary (type tok)"
      by (auto simp: is_binary_def)
    from h(4,5) have "binary_result (type tok) a b = NaN"
      using binary_result_nan [of a b "type tok"] binary_result_pow_nan [of a b] by auto
    with evaluate_node_binary [OF h(1) bin h(2) h(3)] show ?thesis by simp
  qed
  ultimately show ?thesis by blast
qed

theorem nan_soft_failures_witness:
  "evaluate_node (parser_create token_buffer_create)
     (binary (tk TOK_ADD ''+'' 1) (leaf (tk TOK_NUM ''1 + (1/0)'' 1))
        (binary (tk TOK_DIVIDE ''/'' 1) (leaf (tk TOK_NUM ''1/0)'' 1))
           (leaf (tk TOK_NUM ''0)'' 1)))) =
   Some (Some NaN, (parser_create token_buffer_create)\<lparr>mpfr_count := 5\<rparr>)"
proof -
  let ?p = "parser_create token_buffer_create"
  let ?l = "leaf (tk TOK_NUM ''1 + (1/0)'' 1)"
  let ?r = "binary (tk TOK_DIVIDE ''/'' 1) (leaf (tk TOK_NUM ''1/0)'' 1))
              (leaf (tk TOK_NUM ''0)'' 1))"
  have 1: "mpfr_count ?p < mpfr_size ?p"
    by (simp add: parser_create_def MPRF_BUFFER_SIZE_def)
  have 2: "evaluate_node (?p\<lparr>mpfr_count := mpfr_count ?p + 1\<rparr>) ?l =
             Some (Some (Regular 1), ?p\<lparr>mpfr_count := 2\<rparr>)"
    by (simp add: parser_create_def evaluate_defs mpfr_defs is_digit_def)
  have 3: "evaluate_node (?p\<lparr>mpfr_count := 2\<rparr>) ?r = Some (Some NaN, ?p\<lparr>mpfr_count := 5\<rparr>)"
    by (simp add: parser_create_def evaluate_defs mpfr_defs is_digit_def)
  from nan_soft_failures [of ?p ?l "Regular 1" "?p\<lparr>mpfr_count := 2\<rparr>" ?r NaN
      "?p\<lparr>mpfr_count := 5\<rparr>" "tk TOK_ADD ''+'' 1"] 1 2 3
  show ?thesis by simp
qed

subsection \<open>C10: a minus sign that no digit follows\<close>

lemma negate_last_token_buffer_add:
  "token_buff (negate_last (token_buffer_add buff ty s n)) =
     token_buff buff @ [\<lparr>lexeme = s, type = ty, len = n, negative = True\<rparr>]"
  by (simp add: negate_last_def token_buffer_add_def)

lemma tokenize_loop_minus:
  assumes "unary_position buff" and "dropWhile (\<lambda>x. x = CHR '' '') cs = r"
    and "r = [] \<or> \<not> is_digit (hd r)"
  shows "tokenize_loop buff (CHR ''-'' # cs) =
           tokenize_loop (negate_last (token_buffer_add buff TOK_NUM r 0)) r"
proof -
  from assms(3) have "takeWhile is_digit r = []" and "dropWhile is_digit r = r"
    by (auto simp: takeWhile_eq_Nil_iff dropWhile_eq_self_iff)
  with assms(1,2) show ?thesis
    by (simp add: is_space_def is_digit_def lookupTable_def)
qed

lemma evaluate_empty_negative_leaf:
  assumes "mpfr_count p < mpfr_size p"
  shows "evaluate_node p (leaf \<lparr>lexeme = r, type = TOK_NUM, len = 0, negative = True\<rparr>) =
           Some (Some NaN, p\<lparr>mpfr_count := mpfr_count p + 1\<rparr>)"
  using assms by (simp add: evaluate_defs mpfr_set_str_def is_digit_def)

text \<open>
  The loop only appends: the tokens of the buffer it starts with are the first tokens of
  the buffer it returns, whether it returns \<^verbatim>\<open>true\<close> or \<^verbatim>\<open>false\<close>.
\<close>

lemma token_buff_token_buffer_add:
  "token_buff (token_buffer_add buff ty s n) =
     token_buff buff @ [\<lparr>lexeme = s, type = ty, len = n, negative = False\<rparr>]"
  by (simp add: token_buffer_add_def)

lemma tokenize_loop_appends:
  "\<exists>ts. token_buff (snd (tokenize_loop buff s)) = token_buff buff @ ts"
proof (induction buff s rule: tokenize_loop.induct)
  case (1 buff)
  then show ?case by simp
next
  case (2 buff c cs)
  consider (space) "is_space c"
    | (long_number) "\<not> is_space c" "is_digit c"
        "TOKEN_LEXEME_LEN_LIMIT < Suc (scan_number False cs)"
    | (number) "\<not> is_space c" "is_digit c"
        "\<not> TOKEN_LEXEME_LEN_LIMIT < Suc (scan_number False cs)"
    | (long_name) "\<not> is_space c" "\<not> is_digit c" "lookupTable c"
        "TOKEN_LEXEME_LEN_LIMIT < Suc (length (takeWhile lookupTable cs))"
    | (sqrt) "\<not> is_space c" "\<not> is_digit c" "lookupTable c"
        "\<not> TOKEN_LEXEME_LEN_LIMIT < Suc (length (takeWhile lookupTable cs))"
        "Suc (length (takeWhile lookupTable cs)) = 4 \<and> take 4 (c # cs) = ''sqrt''"
    | (name) "\<not> is_space c" "\<not> is_digit c" "lookupTable c"
        "\<not> TOKEN_LEXEME_LEN_LIMIT < Suc (length (takeWhile lookupTable cs))"
        "\<not> (Suc (length (takeWhile lookupTable cs)) = 4 \<and> take 4 (c # cs) = ''sqrt'')"
    | (sign) "\<not> is_space c" "\<not> is_digit c" "\<not> lookupTable c" "c = CHR ''-''"
        "unary_position buff"
    | (minus) "\<not> is_space c" "\<not> is_digit c" "\<not> lookupTable c" "c = CHR ''-''"
        "\<not> unary_position buff"
    | (operator) ty where "\<not> is_space c" "\<not> is_digit c" "\<not> lookupTable c"
        "c \<noteq> CHR ''-''" "op_token c = Some ty"
    | (unrecognized) "\<not> is_space c" "\<not> is_digit c" "\<not> lookupTable c"
        "c \<noteq> CHR ''-''" "op_token c = None"
    by (cases "op_token c") blast+
  then show ?case
  proof cases
    case space
    with "2.IH"(1) show ?thesis by simp
  next
    case long_number
    then show ?thesis by simp
  next
    case number
    from "2.IH"(2) [OF number] show ?thesis
      using number by (auto simp: token_buff_token_buffer_add)
  next
    case long_name
    then show ?thesis by simp
  next
    case sqrt
    from "2.IH"(3) [OF sqrt] show ?thesis
      using sqrt by (auto simp: token_buff_token_buffer_add)
  next
    case name
    from "2.IH"(4) [OF name] show ?thesis
      using name by (auto simp: token_buff_token_buffer_add)
  next
    case sign
    from "2.IH"(5) [OF sign] show ?thesis
      using sign by (auto simp: negate_last_token_buffer_add)
  next
    case minus
    from "2.IH"(6) [OF minus] show ?thesis
      using minus by (auto simp: token_buff_token_buffer_add)
  next
    case operator
    from "2.IH"(7) [OF operator] show ?thesis
      using operator by (auto simp: token_buff_token_buffer_add)
  next
    case unrecognized
    then show ?thesis by simp
  qed
qed

text \<open>
  The claim as stated fails: in \<open>-.5\<close> and in \<open>2 * -$\<close> the \<open>-\<close> is read as a sign and the
  next character is not a digit, the Number token of length zero is appended, and then
  \<^verbatim>\<open>tokenize\<close> fails at the character it does not recognize: it does not succeed, and
  the line has no value.
\<close>

theorem minus_before_unrecognized_character_fails:
  "tokenize token_buffer_create ''-.5'' =
     (False, \<lparr>token_buff = [\<lparr>lexeme = ''.5'', type = TOK_NUM, len = 0, negative = True\<rparr>],
               buff_size = 128\<rparr>) \<and>
   tokenize token_buffer_create ''2 * -$'' =
     (False, \<lparr>token_buff = [tk TOK_NUM ''2 * -$'' 1, tk TOK_MULT ''*'' 1,
                              \<lparr>lexeme = ''$'', type = TOK_NUM, len = 0, negative = True\<rparr>],
               buff_size = 128\<rparr>) \<and>
   map_option fst (run_line (parser_create token_buffer_create) ''-.5'') = Some None \<and>
   map_option fst (run_line (parser_create token_buffer_create) ''2 * -$'') = Some None"
proof -
  have "tokenize token_buffer_create ''-.5'' =
     (False, \<lparr>token_buff = [\<lparr>lexeme = ''.5'', type = TOK_NUM, len = 0, negative = True\<rparr>],
               buff_size = 128\<rparr>)"
    by (simp add: tokenize_defs)
  moreover have "tokenize token_buffer_create ''2 * -$'' =
     (False, \<lparr>token_buff = [tk TOK_NUM ''2 * -$'' 1, tk TOK_MULT ''*'' 1,
                              \<lparr>lexeme = ''$'', type = TOK_NUM, len = 0, negative = True\<rparr>],
               buff_size = 128\<rparr>)"
    by (simp add: tokenize_defs)
  moreover
  have "map_option fst (run_line (parser_create token_buffer_create) ''-.5'') = Some None"
    by (simp add: run_defs)
  moreover
  have "map_option fst (run_line (parser_create token_buffer_create) ''2 * -$'') = Some None"
    by (simp add: run_defs)
  ultimately show ?thesis by blast
qed

text \<open>
  C10, amended.  Let a \<open>-\<close> stand where it is read as a sign (\<open>unary_position\<close>), and let
  \<open>r\<close>, the rest of the line after the blanks that follow it, be empty or start with a
  character that is no digit.  Then the tokenizer does not fail at the sign: it appends a
  Number token of length zero with the negative flag and goes on with \<open>r\<close>.  The token is
  in the buffer that \<^verbatim>\<open>tokenize\<close> leaves, right after those that were there, and
  \<^verbatim>\<open>tokenize\<close> succeeds exactly when it succeeds on \<open>r\<close> from there.  Evaluating the leaf
  of that token gives NaN, its adjusted lexeme being the lone sign.  The line \<open>-x\<close> is
  tokenized, to that token and the variable, and evaluates to NaN, also after \<open>x = 5\<close>.
\<close>

theorem minus_without_digits_is_nan:
  assumes "unary_position buff" and "dropWhile (\<lambda>x. x = CHR '' '') cs = r"
    and "r = [] \<or> \<not> is_digit (hd r)" and "mpfr_count p < mpfr_size p"
  shows "tokenize_loop buff (CHR ''-'' # cs) =
           tokenize_loop (negate_last (token_buffer_add buff TOK_NUM r 0)) r \<and>
         token_buff (negate_last (token_buffer_add buff TOK_NUM r 0)) =
           token_buff buff @ [\<lparr>lexeme = r, type = TOK_NUM, len = 0, negative = True\<rparr>] \<and>
         (\<exists>ts. token_buff (snd (tokenize_loop buff (CHR ''-'' # cs))) =
            token_buff buff @ \<lparr>lexeme = r, type = TOK_NUM, len = 0, negative = True\<rparr> # ts) \<and>
         fst (tokenize_loop buff (CHR ''-'' # cs)) =
           fst (tokenize_loop (negate_last (token_buffer_add buff TOK_NUM r 0)) r) \<and>
         evaluate_node p (leaf \<lparr>lexeme = r, type = TOK_NUM, len = 0, negative = True\<rparr>) =
           Some (Some NaN, p\<lparr>mpfr_count := mpfr_count p + 1\<rparr>) \<and>
         tokenize token_buffer_create ''-x'' =
           (True, \<lparr>token_buff = [\<lparr>lexeme = ''x'', type = TOK_NUM, len = 0, negative = True\<rparr>,
                                  tk TOK_VAR ''x'' 1],
                    buff_size = 128\<rparr>) \<and>
         map_option fst (run_line (parser_create token_buffer_create) ''-x'') =
           Some (Some NaN) \<and>
         map_option fst (run_lines (parser_create token_buffer_create) [''x = 5'', ''-x'']) =
           Some [Some (Regular 5), Some NaN]"
proof -
  let ?tok = "\<lparr>lexeme = r, type = TOK_NUM, len = 0, negative = True\<rparr>"
  let ?buff = "negate_last (token_buffer_add buff TOK_NUM r 0)"
  have 1: "tokenize_loop buff (CHR ''-'' # cs) = tokenize_loop ?buff r"
    using tokenize_loop_minus [OF assms(1-3)] .
  have 2: "token_buff ?buff = token_buff buff @ [?tok]"
    by (rule negate_last_token_buffer_add)
  obtain ts where "token_buff (snd (tokenize_loop ?buff r)) = token_buff ?buff @ ts"
    using tokenize_loop_appends [of ?buff r] by blast
  then have "token_buff (snd (tokenize_loop buff (CHR ''-'' # cs))) = token_buff buff @ ?tok # ts"
    unfolding 1 2 by simp
  then have 3: "\<exists>ts. token_buff (snd (tokenize_loop buff (CHR ''-'' # cs))) =
                  token_buff buff @ ?tok # ts"
    by blast
  have 4: "fst (tokenize_loop buff (CHR ''-'' # cs)) = fst (tokenize_loop ?buff r)"
    unfolding 1 by (rule refl)
  have 5: "evaluate_node p (leaf ?tok) = Some (Some NaN, p\<lparr>mpfr_count := mpfr_count p + 1\<rparr>)"
    using evaluate_empty_negative_leaf [OF assms(4)] .
  have 6: "tokenize token_buffer_create ''-x'' =
          (True, \<lparr>token_buff = [\<lparr>lexeme = ''x'', type = TOK_NUM, len = 0, negative = True\<rparr>,
                                 tk TOK_VAR ''x'' 1],
                   buff_size = 128\<rparr>)"
    by (simp add: tokenize_defs)
  have 7: "map_option fst (run_line (parser_create token_buffer_create) ''-x'') = Some (Some NaN)"
    by (simp add: run_defs)
  have 8: "map_option fst (run_lines (parser_create token_buffer_create) [''x = 5'', ''-x'']) =
       Some [Some (Regular 5), Some NaN]"
    by (simp add: run_defs)
  from 1 2 3 4 5 6 7 8 show ?thesis by blast
qed

theorem minus_without_digits_is_nan_witness:
  "tokenize_loop token_buffer_create ''- x'' =
     tokenize_loop (negate_last (token_buffer_add token_buffer_create TOK_NUM ''x'' 0)) ''x'' \<and>
   token_buff (negate_last (token_buffer_add token_buffer_create TOK_NUM ''x'' 0)) =
     [\<lparr>lexeme = ''x'', type = TOK_NUM, len = 0, negative = True\<rparr>] \<and>
   (\<exists>ts. token_buff (snd (tokenize_loop token_buffer_create ''- x'')) =
      \<lparr>lexeme = ''x'', type = TOK_NUM, len = 0, negative = True\<rparr> # ts) \<and>
   evaluate_node (parser_create token_buffer_create)
       (leaf \<lparr>lexeme = ''x'', type = TOK_NUM, len = 0, negative = True\<rparr>) =
     Some (Some NaN, (parser_create token_buffer_create)\<lparr>mpfr_count := 1\<rparr>)"
proof -
  have 1: "unary_position token_buffer_create"
    by (simp add: unary_position_def token_buffer_create_def)
  have 2: "dropWhile (\<lambda>x. x = CHR '' '') '' x'' = ''x''" by simp
  have 3: "''x'' = [] \<or> \<not> is_digit (hd ''x'')" by (simp add: is_digit_def)
  have 4: "mpfr_count (parser_create token_buffer_create) <
           mpfr_size (parser_create token_buffer_create)"
    by (simp add: parser_create_def MPRF_BUFFER_SIZE_def)
  have t: "token_buff token_buffer_create = []"
    by (simp add: token_buffer_create_def)
  have c: "mpfr_count (parser_create token_buffer_create) + 1 = 1"
    by (simp add: parser_create_def)
  from minus_without_digits_is_nan [OF 1 2 3 4] show ?thesis
    unfolding t c append_Nil by blast
qed

subsection \<open>C6: assignment, then update in place\<close>

text \<open>
  C6.  After \<open>a = 5\<close> the line \<open>a\<close> gives 5; after \<open>a = 5\<close> and \<open>a = a + 1\<close> it gives 6.
  The table holds two names after the first line, \<open>a\<close> and the \<open>last\<close> that \<^verbatim>\<open>main\<close>
  stores, and still two after the second: the second assignment has written the value of
  the symbol that was there.
\<close>

theorem assignment_updates_in_place:
  "map_option fst (run_lines (parser_create token_buffer_create) [''a = 5'', ''a'']) =
     Some [Some (Regular 5), Some (Regular 5)] \<and>
   map_option fst (run_lines (parser_create token_buffer_create)
       [''a = 5'', ''a = a + 1'', ''a'']) =
     Some [Some (Regular 5), Some (Regular 6), Some (Regular 6)] \<and>
   map_option (count \<circ> symTable \<circ> snd)
       (run_lines (parser_create token_buffer_create) [''a = 5'']) = Some 2 \<and>
   map_option (count \<circ> symTable \<circ> snd)
       (run_lines (parser_create token_buffer_create) [''a = 5'', ''a = a + 1'']) = Some 2 \<and>
   map_option (\<lambda>(rs, p). symbol_table_get (symTable p) ''a'' 1)
       (run_lines (parser_create token_buffer_create) [''a = 5'', ''a = a + 1'']) =
     Some (Found (Regular 6))"
proof -
  have "map_option fst (run_lines (parser_create token_buffer_create) [''a = 5'', ''a'']) =
      Some [Some (Regular 5), Some (Regular 5)]"
    by (simp add: run_defs)
  moreover have "map_option fst (run_lines (parser_create token_buffer_create)
       [''a = 5'', ''a = a + 1'', ''a'']) =
     Some [Some (Regular 5), Some (Regular 6), Some (Regular 6)]"
    by (simp add: run_defs)
  moreover have "map_option (count \<circ> symTable \<circ> snd)
       (run_lines (parser_create token_buffer_create) [''a = 5'']) = Some 2"
    by (simp add: run_defs)
  moreover have "map_option (count \<circ> symTable \<circ> snd)
       (run_lines (parser_create token_buffer_create) [''a = 5'', ''a = a + 1'']) = Some 2"
    by (simp add: run_defs)
  moreover have "map_option (\<lambda>(rs, p). symbol_table_get (symTable p) ''a'' 1)
       (run_lines (parser_create token_buffer_create) [''a = 5'', ''a = a + 1'']) =
     Some (Found (Regular 6))"
    by (simp add: run_defs)
  ultimately show ?thesis by blast
qed

subsection \<open>C2: clearing the table\<close>

lemma free_buckets_no_dangling:
  "Dangling \<notin> set bs \<Longrightarrow>
     free_buckets bs = Some (map (\<lambda>b. if b = Chain [] then Chain [] else Dangling) bs)"
proof (induction bs)
  case Nil
  then show ?case by simp
next
  case (Cons b bs)
  then show ?case
    by (cases b rule: free_bucket.cases) auto
qed

text \<open>
  C2.  \<^verbatim>\<open>symbol_table_empty\<close>, which the command \<open>-clear-vars\<close> runs, frees the symbols
  and writes nothing to the table.  After \<open>a\<close> has been inserted in a fresh table (its
  bucket is number 44) and the table has been cleared, \<open>capacity\<close> is 64 as before, but
  \<open>count\<close> is still 1 and bucket 44 still points to the freed symbol: a lookup of \<open>a\<close> does
  not return "absent", it reads freed memory.
\<close>

theorem clear_keeps_count_and_dangling_buckets:
  "symbol_table_insert symbol_table_create ''a'' (Regular 5) 1 =
     Some \<lparr>buckets = (replicate 64 (Chain []))
              [44 := Chain [\<lparr>num = Regular 5, name = ''a'', sym_len = 1\<rparr>]],
           capacity = 64, count = 1\<rparr> \<and>
   symbol_table_empty
     \<lparr>buckets = (replicate 64 (Chain []))
        [44 := Chain [\<lparr>num = Regular 5, name = ''a'', sym_len = 1\<rparr>]],
      capacity = 64, count = 1\<rparr> =
     Some \<lparr>buckets = (replicate 64 (Chain []))[44 := Dangling], capacity = 64, count = 1\<rparr> \<and>
   symbol_table_get
     \<lparr>buckets = (replicate 64 (Chain []))[44 := Dangling], capacity = 64, count = 1\<rparr>
     ''a'' 1 = InvalidRead"
proof -
  have "symbol_table_insert symbol_table_create ''a'' (Regular 5) 1 =
     Some \<lparr>buckets = (replicate 64 (Chain []))
              [44 := Chain [\<lparr>num = Regular 5, name = ''a'', sym_len = 1\<rparr>]],
           capacity = 64, count = 1\<rparr>"
    by (simp add: table_defs)
  moreover have "symbol_table_empty
     \<lparr>buckets = (replicate 64 (Chain []))
        [44 := Chain [\<lparr>num = Regular 5, name = ''a'', sym_len = 1\<rparr>]],
      capacity = 64, count = 1\<rparr> =
     Some \<lparr>buckets = (replicate 64 (Chain []))[44 := Dangling], capacity = 64, count = 1\<rparr>"
  proof -
    have "Dangling \<notin> set ((replicate 64 (Chain []))
              [44 := Chain [\<lparr>num = Regular 5, name = ''a'', sym_len = 1\<rparr>]])"
      by (auto dest!: set_update_subset_insert [THEN subsetD])
    from free_buckets_no_dangling [OF this] show ?thesis
      by (simp add: symbol_table_empty_def map_update)
  qed
  moreover have "symbol_table_get
     \<lparr>buckets = (replicate 64 (Chain []))[44 := Dangling], capacity = 64, count = 1\<rparr>
     ''a'' 1 = InvalidRead"
    by (simp add: table_defs)
  ultimately show ?thesis by blast
qed

subsection \<open>C8: assignment only at the level of the statement\<close>

text \<open>
  The claim as stated fails: in \<open>a = b = 3\<close> the second \<open>=\<close> stands inside the right-hand
  side, and parsing does not fail.  The expression \<open>b\<close> ends where the \<open>=\<close> stands, the
  statement \<open>a = b\<close> is complete, and the rest of the line is not looked at: after
  \<open>b = 7\<close> the line sets \<open>a\<close> to 7.
\<close>

theorem second_assign_sign_is_ignored:
  "map_sum id fst (parse (parser_create (snd (tokenize token_buffer_create ''a = b = 3'')))) =
     Inr (binary (tk TOK_ASSING ''='' 1) (leaf (tk TOK_VAR ''a = b = 3'' 1))
            (leaf (tk TOK_VAR ''b = 3'' 1))) \<and>
   map_option fst (run_lines (parser_create token_buffer_create)
       [''b = 7'', ''a = b = 3'', ''a'']) =
     Some [Some (Regular 7), Some (Regular 7), Some (Regular 7)]"
proof -
  have "map_sum id fst (parse (parser_create (snd (tokenize token_buffer_create ''a = b = 3'')))) =
     Inr (binary (tk TOK_ASSING ''='' 1) (leaf (tk TOK_VAR ''a = b = 3'' 1))
            (leaf (tk TOK_VAR ''b = 3'' 1)))"
    by (simp add: tokenize_defs parse_defs)
  moreover have "map_option fst (run_lines (parser_create token_buffer_create)
       [''b = 7'', ''a = b = 3'', ''a'']) =
     Some [Some (Regular 7), Some (Regular 7), Some (Regular 7)]"
    by (simp add: run_defs)
  ultimately show ?thesis by blast
qed

text \<open>
  C8, amended.  No rule for expressions takes an \<open>=\<close>: in the tree of a parsed statement
  no node below the root carries one, and the root carries one exactly when the first two
  tokens are a variable and \<open>=\<close>.  Where an expression has to start at an \<open>=\<close>, parsing
  fails with the unexpected-token error (\<open>a = 1 + = 2\<close>, \<open>a = (= 3)\<close>).  The line
  \<open>a = (b = 3)\<close> fails as well, but at the \<open>=\<close> that follows the complete operand \<open>b\<close>
  inside the parentheses, where \<^verbatim>\<open>expect\<close> misses the closing parenthesis.
\<close>

theorem assignment_only_at_statement_level:
  "(parse parser = Inr (ast, p') \<longrightarrow>
      (type (token ast) = TOK_ASSING \<longleftrightarrow>
         2 \<le> length (token_buff (tokens parser)) \<and>
         type (token_buff (tokens parser) ! 0) = TOK_VAR \<and>
         type (token_buff (tokens parser) ! 1) = TOK_ASSING) \<and>
      (\<forall>c. left ast = Some c \<or> right ast = Some c \<longrightarrow> \<not> has_assign c)) \<and>
   (peek p = Some t \<and> type t = TOK_ASSING \<longrightarrow>
      parse_expression p = Inl (UnexpectedToken TOK_ASSING)) \<and>
   map_sum id fst (parse (parser_create (snd (tokenize token_buffer_create ''a = 1 + = 2'')))) =
     Inl (UnexpectedToken TOK_ASSING) \<and>
   map_sum id fst (parse (parser_create (snd (tokenize token_buffer_create ''a = (= 3)'')))) =
     Inl (UnexpectedToken TOK_ASSING) \<and>
   map_sum id fst (parse (parser_create (snd (tokenize token_buffer_create ''a = (b = 3)'')))) =
     Inl (ExpectedToken TOK_RPAR (Some TOK_ASSING))"
proof -
  have "map_sum id fst
      (parse (parser_create (snd (tokenize token_buffer_create ''a = 1 + = 2'')))) =
     Inl (UnexpectedToken TOK_ASSING)"
    by (simp add: tokenize_defs parse_defs)
  moreover have "map_sum id fst
      (parse (parser_create (snd (tokenize token_buffer_create ''a = (= 3)'')))) =
     Inl (UnexpectedToken TOK_ASSING)"
    by (simp add: tokenize_defs parse_defs)
  moreover have "map_sum id fst
      (parse (parser_create (snd (tokenize token_buffer_create ''a = (b = 3)'')))) =
     Inl (ExpectedToken TOK_RPAR (Some TOK_ASSING))"
    by (simp add: tokenize_defs parse_defs)
  ultimately show ?thesis
    using parse_success_root [of parser ast p'] parse_expression_at_assign [of p t]
    by blast
qed

theorem assignment_only_at_statement_level_witness:
  "parse (parser_create
       \<lparr>token_buff = [tk TOK_VAR ''a = 5'' 1, tk TOK_ASSING ''='' 1, tk TOK_NUM ''5'' 1],
        buff_size = 128\<rparr>) =
     Inr (binary (tk TOK_ASSING ''='' 1) (leaf (tk TOK_VAR ''a = 5'' 1))
            (leaf (tk TOK_NUM ''5'' 1)),
          (parser_create
             \<lparr>token_buff = [tk TOK_VAR ''a = 5'' 1, tk TOK_ASSING ''='' 1, tk TOK_NUM ''5'' 1],
              buff_size = 128\<rparr>)\<lparr>curr_tok := 3, curr_node := 3\<rparr>) \<and>
   \<not> has_assign (leaf (tk TOK_VAR ''a = 5'' 1)) \<and>
   \<not> has_assign (leaf (tk TOK_NUM ''5'' 1)) \<and>
   parse_expression (parser_create \<lparr>token_buff = [tk TOK_ASSING ''='' 1], buff_size = 128\<rparr>) =
     Inl (UnexpectedToken TOK_ASSING)"
proof -
  let ?P = "parser_create
       \<lparr>token_buff = [tk TOK_VAR ''a = 5'' 1, tk TOK_ASSING ''='' 1, tk TOK_NUM ''5'' 1],
        buff_size = 128\<rparr>"
  let ?ast = "binary (tk TOK_ASSING ''='' 1) (leaf (tk TOK_VAR ''a = 5'' 1))
            (leaf (tk TOK_NUM ''5'' 1))"
  let ?Q = "parser_create \<lparr>token_buff = [tk TOK_ASSING ''='' 1], buff_size = 128\<rparr>"
  have 1: "parse ?P = Inr (?ast, ?P\<lparr>curr_tok := 3, curr_node := 3\<rparr>)"
    by (simp add: parse_defs)
  have 2: "peek ?Q = Some (tk TOK_ASSING ''='' 1)"
    by (simp add: peek_def parser_create_def)
  from assignment_only_at_statement_level
    [of ?P ?ast "?P\<lparr>curr_tok := 3, curr_node := 3\<rparr>" ?Q "tk TOK_ASSING ''='' 1"] 1 2
  show ?thesis by simp
qed

subsection \<open>C9: tokens after the statement\<close>

text \<open>
  The claim as stated fails: \<open>2\<close> is a complete statement and a proper prefix of
  \<open>2 +\<close>, yet \<open>2 +\<close> is not parsed (the operator asks for a right operand); and for
  \<open>2 + 3\<close> the tree is that of the sum, not that of the prefix \<open>2\<close>.
\<close>

theorem operator_after_statement_is_not_ignored:
  "map_sum id fst (parse (parser_create (snd (tokenize token_buffer_create ''2'')))) =
     Inr (leaf (tk TOK_NUM ''2'' 1)) \<and>
   map_sum id fst (parse (parser_create (snd (tokenize token_buffer_create ''2 +'')))) =
     Inl UnexpectedEOF \<and>
   map_sum id fst (parse (parser_create (snd (tokenize token_buffer_create ''2 + 3'')))) =
     Inr (binary (tk TOK_ADD ''+'' 1) (leaf (tk TOK_NUM ''2 + 3'' 1))
            (leaf (tk TOK_NUM ''3'' 1)))"
proof -
  have "map_sum id fst (parse (parser_create (snd (tokenize token_buffer_create ''2'')))) =
     Inr (leaf (tk TOK_NUM ''2'' 1))"
    by (simp add: tokenize_defs parse_defs)
  moreover have
    "map_sum id fst (parse (parser_create (snd (tokenize token_buffer_create ''2 +'')))) =
     Inl UnexpectedEOF"
    by (simp add: tokenize_defs parse_defs)
  moreover have
    "map_sum id fst (parse (parser_create (snd (tokenize token_buffer_create ''2 + 3'')))) =
     Inr (binary (tk TOK_ADD ''+'' 1) (leaf (tk TOK_NUM ''2 + 3'' 1))
            (leaf (tk TOK_NUM ''3'' 1)))"
    by (simp add: tokenize_defs parse_defs)
  ultimately show ?thesis by blast
qed

text \<open>
  C9, amended.  Let the tokens \<open>pre\<close> alone be parsed to \<open>ast\<close>, and let \<open>rest\<close> not go
  on with the statement: the parse of \<open>pre\<close> ends before its last token, or the first
  token of \<open>rest\<close> is none of \<open>^ * / % + -\<close>; and \<open>rest\<close> does not turn a lone variable
  into the left-hand side of an assignment.  Then \<open>pre @ rest\<close> is parsed to the same
  \<open>ast\<close>, with the cursor left where it was for \<open>pre\<close>: the tokens of \<open>rest\<close> are neither
  read nor reported.  (\<open>bs'\<close> is the allocated size of the token buffer, which is never
  below the number of tokens in it.)  So \<open>2 3\<close> is parsed as \<open>2\<close> and evaluated to 2.
\<close>

theorem trailing_tokens_are_ignored:
  assumes "parse (P\<lparr>tokens := \<lparr>token_buff = pre, buff_size = bs\<rparr>\<rparr>) = Inr (ast, P1)"
    and "length (pre @ rest) \<le> bs'"
    and "curr_tok P1 < length pre \<or> rest = [] \<or> \<not> continues (type (hd rest))"
    and "\<not> (length pre = 1 \<and> type (hd pre) = TOK_VAR \<and> rest \<noteq> [] \<and>
            type (hd rest) = TOK_ASSING)"
  shows "(\<exists>P2. parse (P\<lparr>tokens := \<lparr>token_buff = pre @ rest, buff_size = bs'\<rparr>\<rparr>) = Inr (ast, P2) \<and>
            curr_tok P2 = curr_tok P1 \<and> curr_tok P2 \<le> length pre) \<and>
         map_sum id fst (parse (parser_create (snd (tokenize token_buffer_create ''2 3'')))) =
           Inr (leaf (tk TOK_NUM ''2 3'' 1)) \<and>
         map_option fst (run_line (parser_create token_buffer_create) ''2 3'') =
           Some (Some (Regular 2))"
proof -
  have "map_sum id fst (parse (parser_create (snd (tokenize token_buffer_create ''2 3'')))) =
           Inr (leaf (tk TOK_NUM ''2 3'' 1))"
    by (simp add: tokenize_defs parse_defs)
  moreover have "map_option fst (run_line (parser_create token_buffer_create) ''2 3'') =
           Some (Some (Regular 2))"
    by (simp add: run_defs)
  ultimately show ?thesis
    using parse_extends_top [OF assms] by blast
qed

theorem trailing_tokens_are_ignored_witness:
  "\<exists>P2. parse ((parser_create token_buffer_create)
            \<lparr>tokens := \<lparr>token_buff = [tk TOK_NUM ''2 3'' 1] @ [tk TOK_NUM ''3'' 1],
                         buff_size = 128\<rparr>\<rparr>) =
          Inr (leaf (tk TOK_NUM ''2 3'' 1), P2) \<and>
        curr_tok P2 = 1"
proof -
  let ?P = "parser_create token_buffer_create"
  let ?P1 = "?P\<lparr>tokens := \<lparr>token_buff = [tk TOK_NUM ''2 3'' 1], buff_size = 128\<rparr>,
                curr_tok := 1, curr_node := 1\<rparr>"
  have 1: "parse (?P\<lparr>tokens := \<lparr>token_buff = [tk TOK_NUM ''2 3'' 1], buff_size = 128\<rparr>\<rparr>) =
             Inr (leaf (tk TOK_NUM ''2 3'' 1), ?P1)"
    by (simp add: parse_defs token_buffer_create_def TOKEN_BUFFER_SIZE_def)
  have 2: "length ([tk TOK_NUM ''2 3'' 1] @ [tk TOK_NUM ''3'' 1]) \<le> (128::nat)"
    by simp
  have 3: "curr_tok ?P1 < length [tk TOK_NUM ''2 3'' 1] \<or> [tk TOK_NUM ''3'' 1] = [] \<or>
           \<not> continues (type (hd [tk TOK_NUM ''3'' 1]))"
    by (simp add: continues_def)
  have 4: "\<not> (length [tk TOK_NUM ''2 3'' 1] = 1 \<and> type (hd [tk TOK_NUM ''2 3'' 1]) = TOK_VAR \<and>
            [tk TOK_NUM ''3'' 1] \<noteq> [] \<and> type (hd [tk TOK_NUM ''3'' 1]) = TOK_ASSING)"
    by simp
  from trailing_tokens_are_ignored [OF 1 2 3 4] show ?thesis
    by (auto simp: parser_create_def)
qed

subsection \<open>C5: growth of the table\<close>

text \<open>
  The claim as stated fails: after 39 distinct names the count, 39, exceeds
  \<open>0.6 * 64 = 38.4\<close>, yet no resize has taken place and the capacity is 64.  The test is
  made at the start of an insertion, on the count before it.
\<close>

theorem thirty_nine_names_leave_capacity_64:
  "map_option count (insert_all symbol_table_create (butlast forty)) = Some 39 \<and>
   map_option capacity (insert_all symbol_table_create (butlast forty)) = Some 64 \<and>
   (0.6 :: real) * 64 < 39"
proof -
  have "map_option (\<lambda>t. (count t, capacity t))
          (insert_all symbol_table_create (butlast forty)) = Some (39, 64)"
    by (simp add: forty_def table_defs)
  then show ?thesis by auto
qed

text \<open>
  C5, amended.  Assignments to \<open>N\<close> distinct names (of at most 255 characters, what the
  parameter \<^verbatim>\<open>nameLen\<close> holds) are made on a fresh table.  The table grows at the start
  of the insertion that finds the count above \<open>0.6 * capacity\<close>: the capacity stays 64 up
  to \<open>N = 39\<close>, is 128, after exactly one resize, for \<open>N\<close> from 40 to 77, and 256, after a
  second one, for \<open>N\<close> from 78 to 154.  In each case the count is \<open>N\<close> and every name is
  found by \<^verbatim>\<open>symbol_table_get\<close> with the value assigned to it (as \<^verbatim>\<open>mpfr_set\<close> stored
  it).
\<close>

theorem resize_at_the_insertion_after_the_threshold:
  assumes "distinct (map fst as)" and "length as \<le> 154"
    and "\<forall>a \<in> set as. length (fst a) \<le> 255"
  shows "\<exists>t. insert_all symbol_table_create as = Some t \<and> count t = length as \<and>
           capacity t = (if length as \<le> 39 then 64 else if length as \<le> 77 then 128 else 256) \<and>
           (\<forall>a \<in> set as.
              symbol_table_get t (fst a) (length (fst a)) = Found (mpfr_set (snd a)))"
  using insert_all_create [OF assms(1,2)] .

theorem resize_at_the_insertion_after_the_threshold_witness:
  "\<exists>t. insert_all symbol_table_create forty = Some t \<and> count t = 40 \<and> capacity t = 128 \<and>
        symbol_table_get t ''a'' 1 = Found (Regular 1) \<and>
        symbol_table_get t ''N'' 1 = Found (Regular 1)"
proof -
  have 1: "distinct (map fst forty)" by (simp add: forty_def)
  have 2: "length forty \<le> 154" by (simp add: forty_def)
  have 3: "\<forall>a \<in> set forty. length (fst a) \<le> 255" by (simp add: forty_def)
  from resize_at_the_insertion_after_the_threshold [OF 1 2 3] obtain t where
    t: "insert_all symbol_table_create forty = Some t" "count t = length forty"
      "capacity t = (if length forty \<le> 39 then 64 else if length forty \<le> 77 then 128 else 256)"
      "\<forall>a \<in> set forty. symbol_table_get t (fst a) (length (fst a)) = Found (mpfr_set (snd a))"
    by blast
  have "(''a'', Regular 1) \<in> set forty" "(''N'', Regular 1) \<in> set forty"
    by (simp_all add: forty_def)
  with t(4) have "symbol_table_get t ''a'' 1 = Found (Regular 1)"
    "symbol_table_get t ''N'' 1 = Found (Regular 1)"
    by force+
  moreover have "length forty = 40" by (simp add: forty_def)
  ultimately show ?thesis using t(1,2,3) by simp
qed

subsection \<open>C4: a decimal string as a line\<close>

text \<open>
  C4.  The claim fails on two kinds of decimal strings that the tokenizer takes as one
  Number token.  With a comma as the separator: \<open>3,5\<close> is one Number token, its adjusted
  lexeme is \<open>3,5\<close>, and \<^verbatim>\<open>mpfr_set_str\<close>, which reads a period only (the program never
  leaves the C locale), refuses it, so that the line evaluates to NaN, where \<open>3.5\<close>
  evaluates to 3.5.  With 255 characters, the length that the test of the tokenizer still
  lets through: \<^verbatim>\<open>token_adjust_lexeme\<close> writes the 255 digits and the terminator into the
  255 bytes of \<^verbatim>\<open>bufferNames\<close>, so that the evaluation of the line is undefined.
\<close>

theorem comma_number_is_nan_and_255_digits_overrun:
  "tokenize token_buffer_create ''3,5'' =
     (True, \<lparr>token_buff = [tk TOK_NUM ''3,5'' 3], buff_size = 128\<rparr>) \<and>
   token_adjust_lexeme (tk TOK_NUM ''3,5'' 3) = Some ''3,5'' \<and>
   mpfr_set_str ''3,5'' = None \<and>
   map_option fst (run_line (parser_create token_buffer_create) ''3,5'') = Some (Some NaN) \<and>
   map_option fst (run_line (parser_create token_buffer_create) ''3.5'') =
     Some (Some (Regular (7 / 2))) \<and>
   tokenize token_buffer_create (replicate 255 CHR ''1'') =
     (True, \<lparr>token_buff = [tk TOK_NUM (replicate 255 CHR ''1'') 255], buff_size = 128\<rparr>) \<and>
   token_adjust_lexeme (tk TOK_NUM (replicate 255 CHR ''1'') 255) = None \<and>
   evaluate_node (parser_create token_buffer_create)
     (leaf (tk TOK_NUM (replicate 255 CHR ''1'') 255)) = None"
proof -
  have 1: "tokenize token_buffer_create ''3,5'' =
     (True, \<lparr>token_buff = [tk TOK_NUM ''3,5'' 3], buff_size = 128\<rparr>)"
    by (simp add: tokenize_defs)
  have 2: "token_adjust_lexeme (tk TOK_NUM ''3,5'' 3) = Some ''3,5''"
    by (simp add: token_adjust_lexeme_def TOKEN_LEXEME_LEN_LIMIT_def)
  have 3: "mpfr_set_str ''3,5'' = None"
    by (simp add: mpfr_set_str_def is_digit_def)
  have 4: "map_option fst (run_line (parser_create token_buffer_create) ''3,5'') =
             Some (Some NaN)"
    by (simp add: run_defs)
  have h: "mpfr_round (7 / 2) = 7 / 2" "mpfr_check_range (7 / 2) = Regular (7 / 2)"
    using mpfr_round_dyadic [of 7 "- 1"] mpfr_check_range_dyadic [of 7 "- 1"]
    by (simp_all add: powr_minus field_simps)
  have 5: "map_option fst (run_line (parser_create token_buffer_create) ''3.5'') =
             Some (Some (Regular (7 / 2)))"
    by (simp add: run_defs h)
  have "\<forall>c \<in> set (replicate 255 CHR ''1''). is_digit c"
    by (simp add: is_digit_def)
  from tokenize_decimal [OF _ this, of "[]" "[]" "replicate 255 CHR ''1''"]
  have 6: "tokenize token_buffer_create (replicate 255 CHR ''1'') =
     (True, \<lparr>token_buff = [tk TOK_NUM (replicate 255 CHR ''1'') 255], buff_size = 128\<rparr>)"
    by simp
  have 7: "token_adjust_lexeme (tk TOK_NUM (replicate 255 CHR ''1'') 255) = None"
    by (simp add: token_adjust_lexeme_def TOKEN_LEXEME_LEN_LIMIT_def)
  have 8: "evaluate_node (parser_create token_buffer_create)
     (leaf (tk TOK_NUM (replicate 255 CHR ''1'') 255)) = None"
    by (simp add: parser_create_def token_adjust_lexeme_def TOKEN_LEXEME_LEN_LIMIT_def
        MPRF_BUFFER_SIZE_def)
  from 1 2 3 4 5 6 7 8 show ?thesis by blast
qed

end
